theory Spec2Isabelle
  imports Main "HOL-Library.Product_Lexorder" "HOL-Library.Multiset"
begin

section \<open>Text primitives\<close>

text \<open>
  Texts are \<open>string\<close>s. \<open>str.split()\<close> without arguments cuts a text at runs of
  whitespace and drops the empty pieces; \<open>isspace\<close> lists the whitespace code points
  below 256. \<open>" ".join(ws)\<close> puts one space between consecutive words.
\<close>

definition isspace :: "char \<Rightarrow> bool" where
  "isspace c = (c \<in> set [CHR 0x09, CHR 0x0A, CHR 0x0B, CHR 0x0C, CHR 0x0D, CHR 0x1C, CHR 0x1D,
                         CHR 0x1E, CHR 0x1F, CHR 0x20, CHR 0x85, CHR 0xA0])"

text \<open>The scanner of \<open>split\<close>: the word in progress, then the rest of the text.\<close>

fun split_scan :: "string \<Rightarrow> string \<Rightarrow> string list" where
  "split_scan w [] = (if w = [] then [] else [w])"
| "split_scan w (c # cs) =
     (if isspace c then (if w = [] then split_scan [] cs else w # split_scan [] cs)
      else split_scan (w @ [c]) cs)"

definition split :: "string \<Rightarrow> string list" where
  "split s = split_scan [] s"

fun join :: "string \<Rightarrow> string list \<Rightarrow> string" where
  "join sep [] = []"
| "join sep [w] = w"
| "join sep (w # v # ws) = w @ sep @ join sep (v # ws)"

text \<open>A slice \<open>xs[i:j]\<close> with \<open>0 \<le> i\<close> and \<open>0 \<le> j\<close>.\<close>

definition slice :: "'a list \<Rightarrow> nat \<Rightarrow> nat \<Rightarrow> 'a list" where
  "slice xs i j = take (j - i) (drop i xs)"

section \<open>The sequence matcher of difflib\<close>

text \<open>
  Both \<open>compute_diff\<close> functions build a \<open>difflib.SequenceMatcher(None, a, b)\<close> over
  the two word lists and read its \<open>get_opcodes()\<close>. The matcher is modelled after
  CPython's \<open>Lib/difflib.py\<close>: \<open>b2j\<close> maps an element of \<open>b\<close> to the ascending list
  of its positions, \<open>bjunk\<close> is the junk set (empty when \<open>isjunk\<close> is \<open>None\<close>), and
  with \<open>autojunk\<close> a \<open>b\<close> of 200 elements or more loses from \<open>b2j\<close> every element
  that occurs more than \<open>n // 100 + 1\<close> times.
\<close>

record 'a SequenceMatcher =
  seq_a :: "'a list"
  seq_b :: "'a list"
  b2j :: "'a \<rightharpoonup> nat list"
  bjunk :: "'a \<Rightarrow> bool"

text \<open>\<open>for i, elt in enumerate(b): b2j.setdefault(elt, []).append(i)\<close>\<close>

fun chain_b_loop :: "nat \<Rightarrow> 'a list \<Rightarrow> ('a \<rightharpoonup> nat list) \<Rightarrow> ('a \<rightharpoonup> nat list)" where
  "chain_b_loop i [] m = m"
| "chain_b_loop i (elt # rest) m =
     chain_b_loop (Suc i) rest (m(elt \<mapsto> (case m elt of None \<Rightarrow> [] | Some idxs \<Rightarrow> idxs) @ [i]))"

definition chain_b :: "('a \<Rightarrow> bool) option \<Rightarrow> bool \<Rightarrow> 'a list \<Rightarrow> ('a \<rightharpoonup> nat list) \<times> ('a \<Rightarrow> bool)" where
  "chain_b isjunk autojunk b =
     (let all = chain_b_loop 0 b Map.empty;
          junk = (case isjunk of None \<Rightarrow> (\<lambda>elt. False)
                  | Some f \<Rightarrow> (\<lambda>elt. all elt \<noteq> None \<and> f elt));
          kept = (\<lambda>elt. if junk elt then None else all elt);
          n = length b
      in if autojunk \<and> n \<ge> 200
         then (let ntest = n div 100 + 1
               in (\<lambda>elt. case kept elt of None \<Rightarrow> None
                     | Some idxs \<Rightarrow> if length idxs > ntest then None else Some idxs), junk)
         else (kept, junk))"

definition new_matcher :: "('a \<Rightarrow> bool) option \<Rightarrow> 'a list \<Rightarrow> 'a list \<Rightarrow> bool \<Rightarrow> 'a SequenceMatcher" where
  "new_matcher isjunk a b autojunk =
     (case chain_b isjunk autojunk b of
        (m, junk) \<Rightarrow> \<lparr>seq_a = a, seq_b = b, b2j = m, bjunk = junk\<rparr>)"

subsection \<open>find_longest_match\<close>

text \<open>
  One row of the inner loop: \<open>for j in b2j.get(a[i], nothing)\<close>, with its
  \<open>continue\<close> below \<open>blo\<close> and its \<open>break\<close> at \<open>bhi\<close>. \<open>j2len.get(j-1, 0)\<close> is 0
  at \<open>j = 0\<close>, where the key would be \<open>-1\<close>. The new best match starts at
  \<open>i-k+1\<close>, \<open>j-k+1\<close>; \<open>k\<close> never exceeds \<open>i+1\<close> and \<open>j+1\<close>, so \<open>Suc i - k\<close> is
  that number.
\<close>

fun flm_row :: "nat \<Rightarrow> nat \<Rightarrow> nat \<Rightarrow> (nat \<rightharpoonup> nat) \<Rightarrow> nat list
    \<Rightarrow> (nat \<rightharpoonup> nat) \<times> (nat \<times> nat \<times> nat) \<Rightarrow> (nat \<rightharpoonup> nat) \<times> (nat \<times> nat \<times> nat)" where
  "flm_row blo bhi i j2len [] acc = acc"
| "flm_row blo bhi i j2len (j # js) (newj2len, (besti, bestj, bestsize)) =
     (if j < blo then flm_row blo bhi i j2len js (newj2len, (besti, bestj, bestsize))
      else if j \<ge> bhi then (newj2len, (besti, bestj, bestsize))
      else (let k = (case j of 0 \<Rightarrow> 0
                     | Suc j' \<Rightarrow> (case j2len j' of None \<Rightarrow> 0 | Some v \<Rightarrow> v)) + 1
            in flm_row blo bhi i j2len js
                 (newj2len(j \<mapsto> k),
                  if k > bestsize then (Suc i - k, Suc j - k, k) else (besti, bestj, bestsize))))"

text \<open>The outer loop \<open>for i in range(alo, ahi)\<close>, over the list of its indices.\<close>

fun flm_rows :: "'a list \<Rightarrow> ('a \<rightharpoonup> nat list) \<Rightarrow> nat \<Rightarrow> nat \<Rightarrow> nat list
    \<Rightarrow> (nat \<rightharpoonup> nat) \<Rightarrow> (nat \<times> nat \<times> nat) \<Rightarrow> (nat \<times> nat \<times> nat)" where
  "flm_rows a m blo bhi [] j2len best = best"
| "flm_rows a m blo bhi (i # is) j2len best =
     (case flm_row blo bhi i j2len (case m (a ! i) of None \<Rightarrow> [] | Some js \<Rightarrow> js)
             (Map.empty, best) of
        (newj2len, best') \<Rightarrow> flm_rows a m blo bhi is newj2len best')"

text \<open>
  The four \<open>while\<close> loops that extend the best match to the left and to the right,
  first over elements that are not junk (\<open>p\<close> is \<open>not isbjunk\<close>), then over junk.
\<close>

fun extend_left :: "('a \<Rightarrow> bool) \<Rightarrow> 'a list \<Rightarrow> 'a list \<Rightarrow> nat \<Rightarrow> nat
    \<Rightarrow> nat \<times> nat \<times> nat \<Rightarrow> nat \<times> nat \<times> nat" where
  "extend_left p a b alo blo (besti, bestj, bestsize) =
     (if besti > alo \<and> bestj > blo \<and> p (b ! (bestj - 1)) \<and> a ! (besti - 1) = b ! (bestj - 1)
      then extend_left p a b alo blo (besti - 1, bestj - 1, bestsize + 1)
      else (besti, bestj, bestsize))"

function extend_right :: "('a \<Rightarrow> bool) \<Rightarrow> 'a list \<Rightarrow> 'a list \<Rightarrow> nat \<Rightarrow> nat
    \<Rightarrow> nat \<times> nat \<times> nat \<Rightarrow> nat \<times> nat \<times> nat" where
  "extend_right p a b ahi bhi (besti, bestj, bestsize) =
     (if besti + bestsize < ahi \<and> bestj + bestsize < bhi \<and> p (b ! (bestj + bestsize))
         \<and> a ! (besti + bestsize) = b ! (bestj + bestsize)
      then extend_right p a b ahi bhi (besti, bestj, bestsize + 1)
      else (besti, bestj, bestsize))"
  by pat_completeness auto
termination
  by (relation "measure (\<lambda>(p, a, b, ahi, bhi, besti, bestj, bestsize). ahi - (besti + bestsize))")
     auto

definition find_longest_match :: "'a SequenceMatcher \<Rightarrow> nat \<Rightarrow> nat \<Rightarrow> nat \<Rightarrow> nat \<Rightarrow> nat \<times> nat \<times> nat" where
  "find_longest_match m alo ahi blo bhi =
     (let a = seq_a m; b = seq_b m;
          best0 = flm_rows a (b2j m) blo bhi [alo..<ahi] Map.empty (alo, blo, 0);
          best1 = extend_left (\<lambda>x. \<not> bjunk m x) a b alo blo best0;
          best2 = extend_right (\<lambda>x. \<not> bjunk m x) a b ahi bhi best1;
          best3 = extend_left (bjunk m) a b alo blo best2
      in extend_right (bjunk m) a b ahi bhi best3)"

subsection \<open>The best match lies inside the window\<close>

text \<open>
  \<open>best_ok\<close>: a triple \<open>(besti, bestj, bestsize)\<close> lies inside the window
  \<open>a[alo:ahi]\<close>, \<open>b[blo:bhi]\<close>. \<open>row_ok\<close>: the lengths stored in \<open>j2len\<close>
  after row \<open>i\<close> fit between the window's lower ends and their end points.
\<close>

definition row_ok :: "nat \<Rightarrow> nat \<Rightarrow> nat \<Rightarrow> (nat \<rightharpoonup> nat) \<Rightarrow> bool" where
  "row_ok alo blo i m = (\<forall>j v. m j = Some v \<longrightarrow> v + alo \<le> Suc i \<and> v + blo \<le> Suc j)"

definition best_ok :: "nat \<Rightarrow> nat \<Rightarrow> nat \<Rightarrow> nat \<Rightarrow> nat \<times> nat \<times> nat \<Rightarrow> bool" where
  "best_ok alo ahi blo bhi best =
     (case best of (bi, bj, bs) \<Rightarrow>
        alo \<le> bi \<and> blo \<le> bj \<and> bi + bs \<le> max alo ahi \<and> bj + bs \<le> max blo bhi)"

lemma prev_len_bound:
  assumes "\<forall>j v. j2len j = Some v \<longrightarrow> v + alo \<le> i \<and> v + blo \<le> Suc j"
    and "blo \<le> j" and "alo \<le> i"
  shows "(case j of 0 \<Rightarrow> 0 | Suc j' \<Rightarrow> (case j2len j' of None \<Rightarrow> 0 | Some v \<Rightarrow> v)) + 1 + alo \<le> Suc i
       \<and> (case j of 0 \<Rightarrow> 0 | Suc j' \<Rightarrow> (case j2len j' of None \<Rightarrow> 0 | Some v \<Rightarrow> v)) + 1 + blo \<le> Suc j"
proof (cases j)
  case 0
  with assms show ?thesis by simp
next
  case (Suc j')
  show ?thesis
  proof (cases "j2len j'")
    case None
    with Suc assms show ?thesis by simp
  next
    case (Some v)
    with assms(1) have "v + alo \<le> i \<and> v + blo \<le> Suc j'" by blast
    with Suc Some show ?thesis by simp
  qed
qed

lemma flm_row_bounds:
  assumes "\<forall>j v. j2len j = Some v \<longrightarrow> v + alo \<le> i \<and> v + blo \<le> Suc j"
    and "alo \<le> i" and "i < ahi"
  shows "best_ok alo ahi blo bhi best \<Longrightarrow> row_ok alo blo i nm \<Longrightarrow>
     best_ok alo ahi blo bhi (snd (flm_row blo bhi i j2len js (nm, best)))
     \<and> row_ok alo blo i (fst (flm_row blo bhi i j2len js (nm, best)))"
proof (induction js arbitrary: nm best)
  case Nil
  then show ?case by simp
next
  case (Cons j js)
  obtain bi bj bs where best: "best = (bi, bj, bs)" by (cases best) auto
  show ?case
  proof (cases "j < blo")
    case True
    with Cons best show ?thesis by simp
  next
    case False
    note nlt = this
    show ?thesis
    proof (cases "j \<ge> bhi")
      case True
      with Cons.prems best nlt show ?thesis by simp
    next
      case False
      define k where "k = (case j of 0 \<Rightarrow> 0 | Suc j' \<Rightarrow> (case j2len j' of None \<Rightarrow> 0 | Some v \<Rightarrow> v)) + 1"
      have kb: "k + alo \<le> Suc i \<and> k + blo \<le> Suc j"
        unfolding k_def using prev_len_bound[OF assms(1) _ assms(2), of j] nlt by simp
      let ?nm = "nm(j \<mapsto> k)"
      let ?best = "if k > bs then (Suc i - k, Suc j - k, k) else (bi, bj, bs)"
      have step: "flm_row blo bhi i j2len (j # js) (nm, best) = flm_row blo bhi i j2len js (?nm, ?best)"
        using best nlt False by (simp add: k_def Let_def)
      have b: "best_ok alo ahi blo bhi ?best"
        using kb Cons.prems(1) best False nlt assms(3) unfolding best_ok_def by (cases "k > bs") auto
      have n: "row_ok alo blo i ?nm"
        using kb Cons.prems(2) by (simp add: row_ok_def)
      show ?thesis
        unfolding step using Cons.IH[OF b n] .
    qed
  qed
qed

lemma flm_rows_bounds:
  "best_ok alo ahi blo bhi best \<Longrightarrow>
   \<forall>j v. j2len j = Some v \<longrightarrow> v + alo \<le> i0 \<and> v + blo \<le> Suc j \<Longrightarrow>
   alo \<le> i0 \<Longrightarrow>
   best_ok alo ahi blo bhi (flm_rows a m blo bhi [i0..<ahi] j2len best)"
proof (induction "ahi - i0" arbitrary: i0 j2len best)
  case 0
  then show ?case by simp
next
  case (Suc n)
  then have lt: "i0 < ahi" by simp
  let ?js = "case m (a ! i0) of None \<Rightarrow> [] | Some js \<Rightarrow> js"
  let ?r = "flm_row blo bhi i0 j2len ?js (Map.empty, best)"
  have e: "row_ok alo blo i0 Map.empty" by (simp add: row_ok_def)
  have r: "best_ok alo ahi blo bhi (snd ?r) \<and> row_ok alo blo i0 (fst ?r)"
    using flm_row_bounds[OF Suc.prems(2) Suc.prems(3) lt Suc.prems(1) e] .
  have n: "n = ahi - Suc i0" using Suc.hyps(2) by simp
  have j2: "\<forall>j v. fst ?r j = Some v \<longrightarrow> v + alo \<le> Suc i0 \<and> v + blo \<le> Suc j"
    using r by (simp add: row_ok_def)
  have "best_ok alo ahi blo bhi (flm_rows a m blo bhi [Suc i0..<ahi] (fst ?r) (snd ?r))"
    using Suc.hyps(1)[OF n _ j2] r Suc.prems(3) by simp
  then show ?case
    using lt by (simp add: upt_conv_Cons case_prod_beta)
qed

declare extend_left.simps [simp del] extend_right.simps [simp del]

lemma extend_left_bounds:
  "best_ok alo ahi blo bhi best \<Longrightarrow> best_ok alo ahi blo bhi (extend_left p a b alo blo best)"
proof (induction p a b alo blo best rule: extend_left.induct)
  case (1 p a b alo blo besti bestj bestsize)
  show ?case
  proof (cases "besti > alo \<and> bestj > blo \<and> p (b ! (bestj - 1)) \<and> a ! (besti - 1) = b ! (bestj - 1)")
    case True
    have "best_ok alo ahi blo bhi (besti - 1, bestj - 1, bestsize + 1)"
      using True "1.prems" by (auto simp: best_ok_def)
    from "1.IH"[OF True this] True show ?thesis by (subst extend_left.simps) simp
  next
    case False
    then show ?thesis using "1.prems" by (subst extend_left.simps) auto
  qed
qed

lemma extend_right_bounds:
  "best_ok alo ahi blo bhi best \<Longrightarrow> best_ok alo ahi blo bhi (extend_right p a b ahi bhi best)"
proof (induction p a b ahi bhi best rule: extend_right.induct)
  case (1 p a b ahi bhi besti bestj bestsize)
  show ?case
  proof (cases "besti + bestsize < ahi \<and> bestj + bestsize < bhi \<and> p (b ! (bestj + bestsize))
         \<and> a ! (besti + bestsize) = b ! (bestj + bestsize)")
    case True
    have "best_ok alo ahi blo bhi (besti, bestj, bestsize + 1)"
      using True "1.prems" by (auto simp: best_ok_def)
    from "1.IH"[OF True this] True show ?thesis by (subst extend_right.simps) simp
  next
    case False
    then show ?thesis using "1.prems" by (subst extend_right.simps) auto
  qed
qed

lemma find_longest_match_bounds:
  "best_ok alo ahi blo bhi (find_longest_match m alo ahi blo bhi)"
proof -
  have "best_ok alo ahi blo bhi (alo, blo, 0)" by (simp add: best_ok_def)
  then have "best_ok alo ahi blo bhi (flm_rows (seq_a m) (b2j m) blo bhi [alo..<ahi] Map.empty (alo, blo, 0))"
    by (rule flm_rows_bounds) simp_all
  then show ?thesis
    unfolding find_longest_match_def Let_def
    by (intro extend_right_bounds extend_left_bounds)
qed

subsection \<open>get_matching_blocks and get_opcodes\<close>

text \<open>
  The work list of \<open>get_matching_blocks\<close>. The Python list \<open>queue\<close> is used as a
  stack (\<open>pop()\<close> takes its last element, \<open>append\<close> adds at the end); the model keeps
  the end of the Python list at the head.
\<close>

function matching_loop :: "'a SequenceMatcher \<Rightarrow> (nat \<times> nat \<times> nat \<times> nat) list
    \<Rightarrow> (nat \<times> nat \<times> nat) list \<Rightarrow> (nat \<times> nat \<times> nat) list" where
  "matching_loop m [] blocks = blocks"
| "matching_loop m ((alo, ahi, blo, bhi) # queue) blocks =
     (case find_longest_match m alo ahi blo bhi of
        (i, j, k) \<Rightarrow>
          if k \<noteq> 0 then
            matching_loop m
              ((if i + k < ahi \<and> j + k < bhi then [(i + k, ahi, j + k, bhi)] else [])
               @ (if alo < i \<and> blo < j then [(alo, i, blo, j)] else []) @ queue)
              (blocks @ [(i, j, k)])
          else matching_loop m queue blocks)"
  by pat_completeness auto
termination
proof (relation "measure (\<lambda>(m, queue, blocks).
         sum_list (map (\<lambda>(alo, ahi, blo, bhi). 2 * (ahi - alo) + 1) queue))", goal_cases)
  case 1
  show ?case by simp
next
  case (2 m alo ahi blo bhi queue blocks x y xa ya)
  have "find_longest_match m alo ahi blo bhi = (x, xa, ya)"
    using 2(1,2) by simp
  then have "best_ok alo ahi blo bhi (x, xa, ya)"
    using find_longest_match_bounds[of alo ahi blo bhi m] by simp
  with 2(3) show ?case by (auto simp: best_ok_def)
next
  case 3
  then show ?case by simp
qed

text \<open>
  The loop that merges adjacent blocks: \<open>(i1, j1, k1)\<close> is the block in hand, and a block
  is put out where the source appends it to \<open>non_adjacent\<close>.
\<close>

fun collapse :: "nat \<times> nat \<times> nat \<Rightarrow> (nat \<times> nat \<times> nat) list \<Rightarrow> (nat \<times> nat \<times> nat) list" where
  "collapse (i1, j1, k1) [] = (if k1 \<noteq> 0 then [(i1, j1, k1)] else [])"
| "collapse (i1, j1, k1) ((i2, j2, k2) # rest) =
     (if i1 + k1 = i2 \<and> j1 + k1 = j2 then collapse (i1, j1, k1 + k2) rest
      else (if k1 \<noteq> 0 then [(i1, j1, k1)] else []) @ collapse (i2, j2, k2) rest)"

definition get_matching_blocks :: "'a SequenceMatcher \<Rightarrow> (nat \<times> nat \<times> nat) list" where
  "get_matching_blocks m =
     (let la = length (seq_a m); lb = length (seq_b m);
          matching_blocks = sort (matching_loop m [(0, la, 0, lb)] [])
      in collapse (0, 0, 0) matching_blocks @ [(la, lb, 0)])"

datatype tag = Replace | Delete | Insert | Equal

type_synonym opcode = "tag \<times> nat \<times> nat \<times> nat \<times> nat"

fun opcodes_loop :: "nat \<Rightarrow> nat \<Rightarrow> (nat \<times> nat \<times> nat) list \<Rightarrow> opcode list" where
  "opcodes_loop i j [] = []"
| "opcodes_loop i j ((ai, bj, sz) # rest) =
     (if i < ai \<and> j < bj then [(Replace, i, ai, j, bj)]
      else if i < ai then [(Delete, i, ai, j, bj)]
      else if j < bj then [(Insert, i, ai, j, bj)]
      else [])
     @ (if sz \<noteq> 0 then [(Equal, ai, ai + sz, bj, bj + sz)] else [])
     @ opcodes_loop (ai + sz) (bj + sz) rest"

definition get_opcodes :: "'a SequenceMatcher \<Rightarrow> opcode list" where
  "get_opcodes m = opcodes_loop 0 0 (get_matching_blocks m)"

section \<open>The two diff functions\<close>

text \<open>\<open>app/services/diff.py\<close>: segments typed \<open>added\<close>, \<open>removed\<close>, \<open>unchanged\<close>
  (the \<open>DiffChange\<close> of \<open>models/schemas.py\<close>), matcher built with \<open>autojunk=False\<close>.\<close>

datatype change_type = Added | Removed | Unchanged

record DiffChange =
  type :: change_type
  content :: string

fun diff_loop :: "string list \<Rightarrow> string list \<Rightarrow> opcode list \<Rightarrow> DiffChange list \<Rightarrow> DiffChange list" where
  "diff_loop original_words enhanced_words [] result = result"
| "diff_loop original_words enhanced_words ((opcode, i1, i2, j1, j2) # rest) result =
     diff_loop original_words enhanced_words rest
       (if opcode = Equal then
          result @ [\<lparr>type = Unchanged, content = join '' '' (slice original_words i1 i2)\<rparr>]
        else if opcode = Replace then
          result @ [\<lparr>type = Removed, content = join '' '' (slice original_words i1 i2)\<rparr>]
                 @ [\<lparr>type = Added, content = join '' '' (slice enhanced_words j1 j2)\<rparr>]
        else if opcode = Delete then
          result @ [\<lparr>type = Removed, content = join '' '' (slice original_words i1 i2)\<rparr>]
        else if opcode = Insert then
          result @ [\<lparr>type = Added, content = join '' '' (slice enhanced_words j1 j2)\<rparr>]
        else result)"

definition compute_diff :: "string \<Rightarrow> string \<Rightarrow> DiffChange list" where
  "compute_diff original enhanced =
     (let original_words = split original;
          enhanced_words = split enhanced;
          matcher = new_matcher None original_words enhanced_words False
      in diff_loop original_words enhanced_words (get_opcodes matcher) [])"

text \<open>\<open>app/app.py\<close>: dictionaries with the keys \<open>type\<close> (\<open>equal\<close>, \<open>insert\<close>,
  \<open>delete\<close>) and \<open>text\<close>; the matcher is built with the default \<open>autojunk=True\<close>.\<close>

datatype legacy_type = L_equal | L_insert | L_delete

record legacy_change =
  ltype :: legacy_type
  ltext :: string

fun legacy_diff_loop :: "string list \<Rightarrow> string list \<Rightarrow> opcode list \<Rightarrow> legacy_change list
    \<Rightarrow> legacy_change list" where
  "legacy_diff_loop orig_words enh_words [] result = result"
| "legacy_diff_loop orig_words enh_words ((op, i1, i2, j1, j2) # rest) result =
     legacy_diff_loop orig_words enh_words rest
       (if op = Equal then
          result @ [\<lparr>ltype = L_equal, ltext = join '' '' (slice orig_words i1 i2)\<rparr>]
        else if op = Insert then
          result @ [\<lparr>ltype = L_insert, ltext = join '' '' (slice enh_words j1 j2)\<rparr>]
        else if op = Delete then
          result @ [\<lparr>ltype = L_delete, ltext = join '' '' (slice orig_words i1 i2)\<rparr>]
        else if op = Replace then
          result @ [\<lparr>ltype = L_delete, ltext = join '' '' (slice orig_words i1 i2)\<rparr>]
                 @ [\<lparr>ltype = L_insert, ltext = join '' '' (slice enh_words j1 j2)\<rparr>]
        else result)"

definition legacy_compute_diff :: "string \<Rightarrow> string \<Rightarrow> legacy_change list" where
  "legacy_compute_diff original enhanced =
     (let orig_words = split original;
          enh_words = split enhanced;
          matcher = new_matcher None orig_words enh_words True
      in legacy_diff_loop orig_words enh_words (get_opcodes matcher) [])"

section \<open>The two diff functions compared\<close>

text \<open>The renaming of a layered segment into the legacy dictionary: \<open>unchanged\<close> to
  \<open>equal\<close>, \<open>added\<close> to \<open>insert\<close>, \<open>removed\<close> to \<open>delete\<close>, \<open>content\<close> to \<open>text\<close>.\<close>

definition rename :: "DiffChange \<Rightarrow> legacy_change" where
  "rename d = \<lparr>ltype = (case type d of Unchanged \<Rightarrow> L_equal | Added \<Rightarrow> L_insert | Removed \<Rightarrow> L_delete),
               ltext = content d\<rparr>"

text \<open>The positions of \<open>x\<close> in a list whose first element has index \<open>i\<close>: what
  \<open>b2j\<close> holds for \<open>x\<close> before any purge.\<close>

fun positions :: "nat \<Rightarrow> 'a \<Rightarrow> 'a list \<Rightarrow> nat list" where
  "positions i x [] = []"
| "positions i x (y # ys) = (if y = x then [i] else []) @ positions (Suc i) x ys"

lemma positions_empty: "x \<notin> set b \<Longrightarrow> positions i x b = []"
  by (induction b arbitrary: i) auto

lemma chain_b_loop_positions:
  "chain_b_loop i b m x =
     (if x \<in> set b then Some ((case m x of None \<Rightarrow> [] | Some l \<Rightarrow> l) @ positions i x b) else m x)"
proof (induction b arbitrary: i m)
  case Nil
  show ?case by simp
next
  case (Cons e rest)
  show ?case
    by (cases "x \<in> set rest") (auto simp: Cons.IH positions_empty)
qed

lemma positions_replicate: "positions i x (replicate n x) = [i..<i + n]"
  by (induction n arbitrary: i) (simp_all add: upt_conv_Cons)

lemma legacy_diff_loop_rename:
  "legacy_diff_loop ow ew ops (map rename r) = map rename (diff_loop ow ew ops r)"
proof (induction ops arbitrary: r)
  case Nil
  show ?case by simp
next
  case (Cons x ops)
  obtain t i1 i2 j1 j2 where x: "x = (t, i1, i2, j1, j2)" by (cases x) auto
  show ?case
    unfolding x using Cons.IH[of "r @ [\<lparr>type = Unchanged, content = join '' '' (slice ow i1 i2)\<rparr>]"]
      Cons.IH[of "r @ [\<lparr>type = Removed, content = join '' '' (slice ow i1 i2)\<rparr>]"]
      Cons.IH[of "r @ [\<lparr>type = Added, content = join '' '' (slice ew j1 j2)\<rparr>]"]
      Cons.IH[of "r @ [\<lparr>type = Removed, content = join '' '' (slice ow i1 i2)\<rparr>] @ [\<lparr>type = Added, content = join '' '' (slice ew j1 j2)\<rparr>]"]
    by (cases t) (simp_all add: rename_def)
qed

lemma new_matcher_autojunk_small:
  "length b < 200 \<Longrightarrow> new_matcher None a b True = new_matcher None a b False"
  by (simp add: new_matcher_def chain_b_def)

text \<open>
  Claim C10, as amended. When the enhanced text has fewer than 200 words, the legacy
  \<open>compute_diff\<close> returns the segments of the layered \<open>compute_diff\<close>, renamed:
  below 200 elements the \<open>autojunk\<close> heuristic of the legacy matcher purges nothing.
\<close>

theorem legacy_diff_equiv_small:
  "length (split enhanced) < 200 \<Longrightarrow>
   legacy_compute_diff original enhanced = map rename (compute_diff original enhanced)"
  using legacy_diff_loop_rename[of _ _ _ "[]"]
  by (simp add: legacy_compute_diff_def compute_diff_def new_matcher_autojunk_small Let_def)

theorem legacy_diff_equiv_small_witness:
  "length (split ''The feline sat on the rug'') < 200 \<and>
   legacy_compute_diff ''The cat sat on the mat'' ''The feline sat on the rug''
     = map rename (compute_diff ''The cat sat on the mat'' ''The feline sat on the rug'')"
proof -
  have h: "length (split ''The feline sat on the rug'') < 200" by code_simp
  show ?thesis using h legacy_diff_equiv_small[OF h] by simp
qed

lemma split_scan_a: "split_scan [] (concat (replicate n ''a '')) = replicate n ''a''"
  by (induction n) (simp_all add: isspace_def)

lemma split_many_a: "split (concat (replicate n ''a '')) = replicate n ''a''"
  by (simp add: split_def split_scan_a)

lemma flm_row_first_row:
  "bs \<ge> 1 \<Longrightarrow> snd (flm_row blo bhi i Map.empty js (nm, (bi, bj, bs))) = (bi, bj, bs)"
  by (induction js arbitrary: nm) (auto simp: Let_def split: nat.splits)

lemma b2j_legacy_many: 
  "b2j (new_matcher None a (replicate 200 (x::string)) True) = Map.empty"
  by (rule ext) (simp add: new_matcher_def chain_b_def chain_b_loop_positions positions_replicate Let_def)

lemma b2j_layered_many:
  "b2j (new_matcher None a (replicate 200 ''a'') False) ''a'' = Some [0..<200]"
  "b2j (new_matcher None a (replicate 200 ''a'') False) ''x'' = None"
  by (simp_all add: new_matcher_def chain_b_def chain_b_loop_positions positions_replicate Let_def)

lemma matcher_fields:
  "seq_a (new_matcher None a b aj) = a" "seq_b (new_matcher None a b aj) = b"
  "bjunk (new_matcher None a b aj) = (\<lambda>x. False)"
  by (simp_all add: new_matcher_def chain_b_def Let_def)

lemma flm_rows_no_b2j:
  "flm_rows a Map.empty blo bhi is j2len best = best"
  by (induction "is" arbitrary: j2len) simp_all

lemma flm_legacy_many:
  "find_longest_match (new_matcher None [''x'', ''a''] (replicate 200 ''a'') True) 0 (Suc (Suc 0)) 0 200 = (0, 0, 0)"
  unfolding find_longest_match_def b2j_legacy_many Let_def matcher_fields flm_rows_no_b2j
  by (simp add: extend_left.simps extend_right.simps)

lemma flm_layered_many:
  "find_longest_match (new_matcher None [''x'', ''a''] (replicate 200 ''a'') False) 0 (Suc (Suc 0)) 0 200 = (1, 0, 1)"
proof -
  have u: "[0..<200] = 0 # [1..<200]" by (simp add: upt_conv_Cons)
  have r: "flm_row 0 200 (Suc 0) Map.empty [0..<200] (Map.empty, 0, 0, 0) = 
           flm_row 0 200 (Suc 0) Map.empty [1..<200] (Map.empty(0 \<mapsto> 1), 1, 0, 1)"
    unfolding u by simp
  have s: "snd (flm_row 0 200 (Suc 0) Map.empty [0..<200] (Map.empty, 0, 0, 0)) = (1, 0, 1)"
    unfolding r by (rule flm_row_first_row) simp
  have two: "[0..<Suc (Suc 0)] = [0, Suc 0]" by (simp add: upt_conv_Cons)
  have rows: "flm_rows [''x'', ''a''] (b2j (new_matcher None [''x'', ''a''] (replicate 200 ''a'') False)) 0 200 [0..<Suc (Suc 0)] Map.empty (0, 0, 0) = (1, 0, 1)"
    unfolding two using s by (simp add: b2j_layered_many case_prod_beta)
  show ?thesis
    unfolding find_longest_match_def Let_def matcher_fields rows
    by (simp add: extend_left.simps extend_right.simps)
qed

lemma split_x_a: "split ''x a'' = [''x'', ''a'']"
  by (simp add: split_def isspace_def)

lemma legacy_len: "length (legacy_compute_diff ''x a'' (concat (replicate 200 ''a ''))) = 2"
proof -
  have g: "get_matching_blocks (new_matcher None [''x'', ''a''] (replicate 200 ''a'') True) = [(2, 200, 0)]"
    unfolding get_matching_blocks_def Let_def matcher_fields
    by (simp add: flm_legacy_many)
  show ?thesis
    unfolding legacy_compute_diff_def Let_def split_x_a split_many_a get_opcodes_def g
    by simp
qed

lemma layered_len: "length (compute_diff ''x a'' (concat (replicate 200 ''a ''))) = 3"
proof -
  have g: "get_matching_blocks (new_matcher None [''x'', ''a''] (replicate 200 ''a'') False) = [(1, 0, 1), (2, 200, 0)]"
    unfolding get_matching_blocks_def Let_def matcher_fields
    by (simp add: flm_layered_many)
  show ?thesis
    unfolding compute_diff_def Let_def split_x_a split_many_a get_opcodes_def g
    by simp
qed

text \<open>
  Claim C10 as stated fails. The original is \<open>x a\<close>, the enhanced text is the word
  \<open>a\<close> 200 times. The legacy matcher (\<open>autojunk\<close>) drops the popular word \<open>a\<close> from
  \<open>b2j\<close>, finds no match and returns two segments; the layered matcher
  (\<open>autojunk=False\<close>) matches \<open>a\<close> and returns three.
\<close>

theorem legacy_diff_differs_counterexample:
  "legacy_compute_diff ''x a'' (concat (replicate 200 ''a ''))
     \<noteq> map rename (compute_diff ''x a'' (concat (replicate 200 ''a '')))"
proof
  assume "legacy_compute_diff ''x a'' (concat (replicate 200 ''a ''))
     = map rename (compute_diff ''x a'' (concat (replicate 200 ''a '')))"
  then have "length (legacy_compute_diff ''x a'' (concat (replicate 200 ''a '')))
     = length (compute_diff ''x a'' (concat (replicate 200 ''a '')))" by simp
  then show False by (simp add: legacy_len layered_len)
qed

section \<open>Values shared by the handlers\<close>

text \<open>
  JSON values as the handlers pass them around (request bodies, model replies, response
  bodies); floating-point numbers do not occur in what is modelled. A call to a
  collaborator either raises (with the text of the exception) or returns.
\<close>

datatype json = JNull | JBool bool | JInt int | JString string | JArray "json list"
  | JObject "(string \<times> json) list"

datatype 'a outcome = Raises string | Returns 'a

type_synonym user_id = string

text \<open>\<open>d.get(key, default)\<close> on a dictionary.\<close>

definition dict_get :: "(string \<times> 'v) list \<Rightarrow> string \<Rightarrow> 'v \<Rightarrow> 'v" where
  "dict_get d key dflt = (case map_of d key of None \<Rightarrow> dflt | Some v \<Rightarrow> v)"

text \<open>\<open>s.strip()\<close>: whitespace removed at both ends.\<close>

definition strip :: "string \<Rightarrow> string" where
  "strip s = rev (dropWhile isspace (rev (dropWhile isspace s)))"

text \<open>A diff as the JSON the handlers return.\<close>

definition legacy_diff_json :: "legacy_change list \<Rightarrow> json" where
  "legacy_diff_json ds =
     JArray (map (\<lambda>d. JObject [(''type'', JString (case ltype d of L_equal \<Rightarrow> ''equal''
                                      | L_insert \<Rightarrow> ''insert'' | L_delete \<Rightarrow> ''delete'')),
                                  (''text'', JString (ltext d))]) ds)"

definition diff_json :: "DiffChange list \<Rightarrow> json" where
  "diff_json ds =
     JArray (map (\<lambda>d. JObject [(''type'', JString (case type d of Added \<Rightarrow> ''added''
                                      | Removed \<Rightarrow> ''removed'' | Unchanged \<Rightarrow> ''unchanged'')),
                                  (''content'', JString (content d))]) ds)"

section \<open>The legacy single-file variant (app/app.py)\<close>

subsection \<open>Store and collaborator\<close>

text \<open>
  The MongoDB collections the handlers touch: the credits of each user document, the
  documents and the enhancements (the audit log). \<open>groq_calls\<close> is a history variable:
  every call of \<open>_call_gemini\<close> adds the persona's system text and the input text its
  prompt is formatted from. Time stamps are left out.
\<close>

record enhancement =
  enh_user_id :: user_id
  enh_doc_id :: string
  enh_operation :: string
  enh_persona :: "string option"
  enh_input_text :: string
  enh_output_text :: json
  enh_changes :: json
  enh_credits_used :: int

record world =
  users :: "user_id \<rightharpoonup> int"
  documents :: "(string \<times> user_id \<times> string \<times> string) list"
  enhancements :: "enhancement list"
  groq_calls :: "(string \<times> string) list"

definition get_credits :: "user_id \<Rightarrow> world \<Rightarrow> int" where
  "get_credits uid w = (case users w uid of None \<Rightarrow> 0 | Some c \<Rightarrow> c)"

text \<open>\<open>deduct_credits\<close> reads the user document, compares, and then sends an \<open>$inc\<close> of
  \<open>-amount\<close>; run on its own, the increment applies to the balance just read.\<close>

definition deduct_credits :: "user_id \<Rightarrow> int \<Rightarrow> world \<Rightarrow> bool \<times> world" where
  "deduct_credits uid amount w =
     (case users w uid of
        None \<Rightarrow> (False, w)
      | Some c \<Rightarrow> if c < amount then (False, w)
                  else (True, w\<lparr>users := (users w)(uid \<mapsto> c - amount)\<rparr>))"

definition add_credits :: "user_id \<Rightarrow> int \<Rightarrow> world \<Rightarrow> world" where
  "add_credits uid amount w =
     (case users w uid of
        None \<Rightarrow> w
      | Some c \<Rightarrow> w\<lparr>users := (users w)(uid \<mapsto> c + amount)\<rparr>)"

text \<open>\<open>save_document\<close> returns the id the store gives the new document; the id is an
  argument of the model.\<close>

definition save_document :: "user_id \<Rightarrow> string \<Rightarrow> string \<Rightarrow> string \<Rightarrow> world \<Rightarrow> string \<times> world" where
  "save_document uid title content_text new_id w =
     (new_id, w\<lparr>documents := documents w @ [(new_id, uid, title, content_text)]\<rparr>)"

definition save_enhancement :: "user_id \<Rightarrow> string \<Rightarrow> string \<Rightarrow> string \<Rightarrow> json
    \<Rightarrow> string option \<Rightarrow> json \<Rightarrow> int \<Rightarrow> world \<Rightarrow> world" where
  "save_enhancement uid doc_id operation input_text output_text persona changes credits_used w =
     w\<lparr>enhancements := enhancements w @
        [\<lparr>enh_user_id = uid, enh_doc_id = doc_id, enh_operation = operation,
          enh_persona = persona, enh_input_text = input_text, enh_output_text = output_text,
          enh_changes = changes, enh_credits_used = credits_used\<rparr>]\<rparr>"

subsection \<open>Personas\<close>

record persona =
  persona_label :: string
  persona_description :: string
  persona_system :: string

definition PERSONAS :: "(string \<times> persona) list" where
  "PERSONAS =
    [(''technical'', \<lparr>persona_label = ''Technical'',
        persona_description = ''Precise, structured, jargon-aware writing'',
        persona_system = ''You are a technical writing expert. Rewrite the content to be precise, well-structured, and technically accurate. Use clear terminology, logical flow, and avoid ambiguity.''\<rparr>),
     (''business'', \<lparr>persona_label = ''Business'',
        persona_description = ''Professional & persuasive'',
        persona_system = ''You are a senior business communication expert. Rewrite the content to be professional, persuasive, and results-oriented. Use active voice and business-appropriate vocabulary.''\<rparr>),
     (''finance'', \<lparr>persona_label = ''Finance'',
        persona_description = ''Analytical & data-oriented tone'',
        persona_system = ''You are a financial analyst and writer. Rewrite the content with an analytical, data-driven tone. Use precise quantitative language and structured arguments.''\<rparr>),
     (''simplified'', \<lparr>persona_label = ''Simplified'',
        persona_description = ''Easy-to-read, beginner-friendly'',
        persona_system = ''You are a plain-language expert. Rewrite the content so it is crystal-clear for a beginner. Use simple words, short sentences, and avoid jargon.''\<rparr>),
     (''comedian'', \<lparr>persona_label = ''Comedian'',
        persona_description = ''Light, witty style'',
        persona_system = ''You are a witty comedy writer. Rewrite the content with a light, humorous tone. Add clever wordplay and amusing observations while keeping the core message intact.''\<rparr>),
     (''poet'', \<lparr>persona_label = ''Poet'',
        persona_description = ''Creative & expressive tone'',
        persona_system = ''You are a creative literary writer. Rewrite the content with vivid, expressive, and poetic language. Use metaphors and imagery while preserving the original meaning.''\<rparr>)]"

text \<open>\<open>PERSONAS[key]\<close> for a key known to be there.\<close>

definition persona_of :: "string \<Rightarrow> persona" where
  "persona_of key = the (map_of PERSONAS key)"

text \<open>
  \<open>enhance_with_persona\<close>: \<open>PERSONAS.get(persona_key, PERSONAS["simplified"])\<close>, then
  one call of the model and \<open>_parse_json\<close> of its reply. \<open>llm\<close> is what the two give
  together: they raise, or return the parsed JSON.
\<close>

definition enhance_with_persona :: "string \<Rightarrow> string \<Rightarrow> json outcome \<Rightarrow> world \<Rightarrow> json outcome \<times> world" where
  "enhance_with_persona text_in persona_key llm w =
     (let persona = dict_get PERSONAS persona_key (persona_of ''simplified'')
      in (llm, w\<lparr>groq_calls := groq_calls w @ [(persona_system persona, text_in)]\<rparr>))"

subsection \<open>The handler persona_enhance\<close>

text \<open>
  The request body, with the fields the handler reads (each may be absent). A response
  is a status with a JSON body; \<open>Crash\<close> is an exception that leaves the handler (the
  framework answers 500). The \<open>similarity_score\<close> of the success body is a
  floating-point number and is left out of the modelled body.
\<close>

record request =
  req_text :: "string option"
  req_persona :: "string option"
  req_doc_id :: "string option"
  req_title :: "string option"

datatype response = Response nat "(string \<times> json) list" | Crash string

definition persona_enhance :: "request \<Rightarrow> user_id \<Rightarrow> json outcome \<Rightarrow> string \<Rightarrow> world
    \<Rightarrow> response \<times> world" where
  "persona_enhance data uid llm new_id w =
     (let text_in = strip (case req_text data of None \<Rightarrow> [] | Some t \<Rightarrow> t);
          persona_key = (case req_persona data of None \<Rightarrow> ''simplified'' | Some p \<Rightarrow> p);
          doc_id = (case req_doc_id data of None \<Rightarrow> [] | Some d \<Rightarrow> d);
          title = (case req_title data of None \<Rightarrow> ''Untitled'' | Some t \<Rightarrow> t)
      in if text_in = [] then
           (Response 400 [(''error'', JString ''text is required'')], w)
         else if length text_in > 50000 then
           (Response 400 [(''error'', JString ''Text too long (max 50,000 characters)'')], w)
         else if persona_key \<notin> set (map fst PERSONAS) then
           (Response 400 [(''error'', JString
              (''Unknown persona. Valid: ['' @ CHR 0x27 # ''technical'' @ CHR 0x27 # '', ''
               @ CHR 0x27 # ''business'' @ CHR 0x27 # '', '' @ CHR 0x27 # ''finance'' @ CHR 0x27 # '', ''
               @ CHR 0x27 # ''simplified'' @ CHR 0x27 # '', '' @ CHR 0x27 # ''comedian'' @ CHR 0x27 # '', ''
               @ CHR 0x27 # ''poet'' @ CHR 0x27 # '']''))], w)
         else
           (case deduct_credits uid 1 w of
              (False, w1) \<Rightarrow>
                (Response 402 [(''error'', JString ''Insufficient credits''),
                               (''credits_required'', JInt 1)], w1)
            | (True, w1) \<Rightarrow>
                (case enhance_with_persona text_in persona_key llm w1 of
                   (Raises e, w2) \<Rightarrow>
                     (Response 500 [(''error'', JString (''AI error: '' @ e))],
                      add_credits uid 1 w2)
                 | (Returns (JObject result), w2) \<Rightarrow>
                     (let enhanced_text = dict_get result ''enhanced_text'' (JString []);
                          changes = dict_get result ''changes'' (JArray []);
                          (doc_id', w3) = (if doc_id = [] then save_document uid title text_in new_id w2
                                           else (doc_id, w2));
                          w4 = save_enhancement uid doc_id' ''persona_enhance'' text_in
                                 enhanced_text (Some persona_key) changes 1 w3
                      in (case enhanced_text of
                            JString enhanced \<Rightarrow>
                              (Response 200
                                 [(''enhanced_text'', enhanced_text),
                                  (''changes'', changes),
                                  (''diff'', legacy_diff_json (legacy_compute_diff text_in enhanced)),
                                  (''persona'', JString (persona_label (persona_of persona_key))),
                                  (''doc_id'', JString doc_id'),
                                  (''credits_used'', JInt 1)], w4)
                          | _ \<Rightarrow> (Crash ''AttributeError'', w4)))
                 | (Returns _, w2) \<Rightarrow> (Crash ''AttributeError'', w2))))"

section \<open>The layered variant (app/routers, app/services, app/db)\<close>

subsection \<open>Store and collaborator\<close>

text \<open>
  The Supabase tables the handlers touch: the credits of each profile and the analyses
  (the audit log). \<open>llm_calls\<close> is a history variable: every call of the model adds its
  system prompt and the input text its user prompt embeds.
\<close>

record analysis =
  an_user_id :: user_id
  an_feature :: string
  an_persona :: "string option"
  an_input_text :: string
  an_output_json :: json
  an_credits_used :: int

record supabase =
  profiles :: "user_id \<rightharpoonup> int"
  analyses :: "analysis list"
  llm_calls :: "(string \<times> string) list"

definition get_user_credits :: "user_id \<Rightarrow> supabase \<Rightarrow> int" where
  "get_user_credits uid db = (case profiles db uid of None \<Rightarrow> 0 | Some c \<Rightarrow> c)"

text \<open>
  Modelled from the spec: the Postgres function \<open>deduct_credits\<close> that
  \<open>db/supabase.py\<close> calls by RPC is not among the source files. The spec's
  \<open>tryDebit(userId, amount) -> bool\<close>: it checks \<open>balance >= amount\<close> and, if so,
  decrements the balance, in one step; otherwise it changes nothing and the caller gets
  \<open>False\<close>.
\<close>

definition deduct_credits_rpc :: "user_id \<Rightarrow> int \<Rightarrow> supabase \<Rightarrow> bool \<times> supabase" where
  "deduct_credits_rpc uid amount db =
     (case profiles db uid of
        None \<Rightarrow> (False, db)
      | Some c \<Rightarrow> if c \<ge> amount then (True, db\<lparr>profiles := (profiles db)(uid \<mapsto> c - amount)\<rparr>)
                  else (False, db))"

text \<open>
  \<open>add_credits\<close> of \<open>db/supabase.py\<close> builds the update it means to send from
  \<open>supabase.raw(f"credits + {amount}")\<close>. The client object that \<open>create_client\<close>
  returns has no attribute \<open>raw\<close>, so evaluating that argument raises
  \<open>AttributeError\<close> before any request is made: the call never returns a balance and
  the store is left as it was.
\<close>

definition add_credits_row :: "user_id \<Rightarrow> int \<Rightarrow> supabase \<Rightarrow> int outcome \<times> supabase" where
  "add_credits_row uid amount db = (Raises ''AttributeError'', db)"

text \<open>\<open>log_analysis\<close> inserts one row; \<open>log_error\<close> is the exception the insert raises,
  if it does.\<close>

definition log_analysis :: "user_id \<Rightarrow> string \<Rightarrow> string \<Rightarrow> json \<Rightarrow> int \<Rightarrow> string option
    \<Rightarrow> string option \<Rightarrow> supabase \<Rightarrow> unit outcome \<times> supabase" where
  "log_analysis uid feature input_text output_json credits_used persona log_error db =
     (case log_error of
        Some e \<Rightarrow> (Raises e, db)
      | None \<Rightarrow>
          (Returns (),
           db\<lparr>analyses := analyses db @
             [\<lparr>an_user_id = uid, an_feature = feature, an_persona = persona,
               an_input_text = take 5000 input_text, an_output_json = output_json,
               an_credits_used = credits_used\<rparr>]\<rparr>))"

text \<open>
  A reply of the model: the call raises, or it returns a text; the text comes with what
  \<open>json.loads\<close> makes of it (\<open>None\<close> when it raises \<open>JSONDecodeError\<close>).
\<close>

datatype llm_reply = CallFails string | Reply string "json option"

definition run_llm :: "string \<Rightarrow> string \<Rightarrow> llm_reply \<Rightarrow> supabase \<Rightarrow> llm_reply outcome \<times> supabase" where
  "run_llm system_prompt user_text reply db =
     (case reply of CallFails e \<Rightarrow> Raises e | Reply raw parsed \<Rightarrow> Returns (Reply raw parsed),
      db\<lparr>llm_calls := llm_calls db @ [(system_prompt, user_text)]\<rparr>)"

definition json_loads :: "llm_reply \<Rightarrow> json outcome" where
  "json_loads reply =
     (case reply of Reply raw (Some j) \<Rightarrow> Returns j | _ \<Rightarrow> Raises ''JSONDecodeError'')"

definition CREDIT_COST :: "(string \<times> int) list" where
  "CREDIT_COST = [(''enhance'', 1), (''mindmap'', 2), (''consistency'', 2), (''evolution'', 2)]"

text \<open>An \<open>HTTPException\<close> with its status and detail, or another exception that leaves
  the handler.\<close>

datatype http_error = HTTPException nat json | Unhandled string

definition insufficient_credits :: "int \<Rightarrow> int \<Rightarrow> http_error" where
  "insufficient_credits cost current =
     HTTPException 402 (JObject [(''error'', JString ''insufficient_credits''),
                                 (''credits_needed'', JInt cost),
                                 (''current_credits'', JInt current)])"

subsection \<open>The handlers consistency and enhance\<close>

definition consistency :: "string \<Rightarrow> user_id \<Rightarrow> llm_reply \<Rightarrow> string option \<Rightarrow> supabase
    \<Rightarrow> (http_error + (string \<times> json) list) \<times> supabase" where
  "consistency body_text uid reply log_error db =
     (let COST = the (map_of CREDIT_COST ''consistency'')
      in case deduct_credits_rpc uid COST db of
           (False, db1) \<Rightarrow> (Inl (insufficient_credits COST (get_user_credits uid db1)), db1)
         | (True, db1) \<Rightarrow>
             (case run_llm ''You are a narrative consistency analysis engine.'' body_text reply db1 of
                (Raises e, db2) \<Rightarrow>
                  (case add_credits_row uid COST db2 of
                     (Raises x, db3) \<Rightarrow> (Inl (Unhandled x), db3)
                   | (Returns n, db3) \<Rightarrow>
                       (Inl (HTTPException 500 (JString (''Consistency scan failed: '' @ e))),
                        db3))
              | (Returns result_str, db2) \<Rightarrow>
                  (case json_loads result_str of
                     Raises e \<Rightarrow>
                       (case add_credits_row uid COST db2 of
                          (Raises x, db3) \<Rightarrow> (Inl (Unhandled x), db3)
                        | (Returns n, db3) \<Rightarrow>
                            (Inl (HTTPException 500 (JString (''Consistency scan failed: '' @ e))),
                             db3))
                   | Returns result \<Rightarrow>
                       (let credits_remaining = get_user_credits uid db2
                        in case log_analysis uid ''consistency'' body_text result COST None
                                  log_error db2 of
                             (Raises e, db3) \<Rightarrow> (Inl (Unhandled e), db3)
                           | (Returns u, db3) \<Rightarrow>
                               (case result of
                                  JObject r \<Rightarrow>
                                    (Inr [(''issues'', dict_get r ''issues'' (JArray [])),
                                          (''score'', dict_get r ''score'' (JInt 50)),
                                          (''summary'', dict_get r ''summary'' (JString [])),
                                          (''credits_remaining'', JInt credits_remaining)], db3)
                                | _ \<Rightarrow> (Inl (Unhandled ''AttributeError''), db3))))))"

datatype PersonaEnum = technical | business | finance | simplified | comedian | poet

fun persona_value :: "PersonaEnum \<Rightarrow> string" where
  "persona_value technical = ''technical''"
| "persona_value business = ''business''"
| "persona_value finance = ''finance''"
| "persona_value simplified = ''simplified''"
| "persona_value comedian = ''comedian''"
| "persona_value poet = ''poet''"

definition PERSONA_PROMPTS :: "(string \<times> string) list" where
  "PERSONA_PROMPTS =
    [(''technical'', ''You are a precise technical writing engine. Rewrite the provided text to be structured, jargon-aware, and logically sequenced. Use clear headings where appropriate, avoid ambiguity, and ensure every sentence adds information value. Do not use filler words.''),
     (''business'', ''You are a professional business communication expert. Rewrite the text to be persuasive, executive-ready, and results-oriented. Use confident, active voice. Highlight value propositions and keep sentences concise.''),
     (''finance'', ''You are a financial analyst and writer. Rewrite the text with an analytical, data-oriented tone. Use precise language, reference quantifiable outcomes where inferred, and maintain a formal, objective style.''),
     (''simplified'', ''You are a clarity specialist. Rewrite the text so a 12-year-old can understand it without losing the core meaning. Use short sentences, common words, and concrete examples. No jargon.''),
     (''comedian'', ''You are a witty writer with sharp comedic timing. Rewrite the text to be light, clever, and entertaining '' @ [CHR 0xE2, CHR 0x80, CHR 0x94] @ '' without sacrificing the core message. Use wordplay, irony, and a conversational tone. Keep it punchy.''),
     (''poet'', ''You are a creative writing poet. Rewrite the text with expressive, lyrical language. Use metaphors, rhythm, and vivid imagery to transform the content into something beautiful and emotionally resonant while preserving the original meaning.'')]"

text \<open>
  \<open>stream_enhance_text\<close>: \<open>PERSONA_PROMPTS.get(persona, PERSONA_PROMPTS["simplified"])\<close>,
  then the streamed call. \<open>chunks\<close> are the contents of the chunks that arrive and
  \<open>failure\<close> the exception that ends the stream, if one does; a chunk without content is
  not passed on.
\<close>

definition stream_enhance_text :: "string \<Rightarrow> string \<Rightarrow> string list \<times> string option \<Rightarrow> supabase
    \<Rightarrow> (string list \<times> string option) \<times> supabase" where
  "stream_enhance_text text_in persona stream db =
     (let system_prompt = dict_get PERSONA_PROMPTS persona (the (map_of PERSONA_PROMPTS ''simplified''))
      in ((filter (\<lambda>token. token \<noteq> []) (fst stream), snd stream),
          db\<lparr>llm_calls := llm_calls db @ [(system_prompt, text_in)]\<rparr>))"

text \<open>The server-sent events of the streaming response, in the order they are sent.
  \<open>GeneratorRaises\<close> stands for an exception that leaves the generator: the stream ends
  there, without a final event.\<close>

datatype sse = TokenEvent string | DoneEvent json int | ErrorEvent string | GeneratorRaises string

definition event_generator :: "string \<Rightarrow> PersonaEnum \<Rightarrow> user_id \<Rightarrow> int \<Rightarrow> string list \<times> string option
    \<Rightarrow> string option \<Rightarrow> supabase \<Rightarrow> sse list \<times> supabase" where
  "event_generator body_text body_persona uid COST stream log_error db =
     (case stream_enhance_text body_text (persona_value body_persona) stream db of
        ((full_enhanced, Some e), db1) \<Rightarrow>
          (case add_credits_row uid COST db1 of
             (Raises x, db2) \<Rightarrow> (map TokenEvent full_enhanced @ [GeneratorRaises x], db2)
           | (Returns n, db2) \<Rightarrow> (map TokenEvent full_enhanced @ [ErrorEvent e], db2))
      | ((full_enhanced, None), db1) \<Rightarrow>
          (let enhanced_text = concat full_enhanced;
               diff = compute_diff body_text enhanced_text;
               credits_remaining = get_user_credits uid db1
           in case log_analysis uid ''enhance'' body_text
                     (JObject [(''enhanced_text'', JString enhanced_text), (''diff'', diff_json diff)])
                     COST (Some (persona_value body_persona)) log_error db1 of
                (Raises e, db2) \<Rightarrow>
                  (case add_credits_row uid COST db2 of
                     (Raises x, db3) \<Rightarrow> (map TokenEvent full_enhanced @ [GeneratorRaises x], db3)
                   | (Returns n, db3) \<Rightarrow> (map TokenEvent full_enhanced @ [ErrorEvent e], db3))
              | (Returns u, db2) \<Rightarrow>
                  (map TokenEvent full_enhanced @ [DoneEvent (diff_json diff) credits_remaining],
                   db2)))"

definition enhance :: "string \<Rightarrow> PersonaEnum \<Rightarrow> user_id \<Rightarrow> string list \<times> string option
    \<Rightarrow> string option \<Rightarrow> supabase \<Rightarrow> (http_error + sse list) \<times> supabase" where
  "enhance body_text body_persona uid stream log_error db =
     (let COST = the (map_of CREDIT_COST ''enhance'')
      in case deduct_credits_rpc uid COST db of
           (False, db1) \<Rightarrow> (Inl (insufficient_credits COST (get_user_credits uid db1)), db1)
         | (True, db1) \<Rightarrow>
             (case event_generator body_text body_persona uid COST stream log_error db1 of
                (events, db2) \<Rightarrow> (Inr events, db2)))"

subsection \<open>Graph assembly (app/services/graph.py) and the handler mindmap\<close>

text \<open>
  An entity as \<open>extract_entities\<close> returns it. The extractor and the theme heuristic run
  spaCy and a keyword count over the text; \<open>build_graph\<close> takes their results,
  \<open>raw_entities\<close> and \<open>heuristic_themes\<close>, as arguments.
\<close>

record entity =
  ent_id :: string
  ent_label :: string
  ent_type :: string
  ent_count :: nat

text \<open>Python's truth value of a JSON value, as \<open>or\<close> tests it.\<close>

fun truthy :: "json \<Rightarrow> bool" where
  "truthy JNull = False"
| "truthy (JBool b) = b"
| "truthy (JInt n) = (n \<noteq> 0)"
| "truthy (JString s) = (s \<noteq> [])"
| "truthy (JArray xs) = (xs \<noteq> [])"
| "truthy (JObject d) = (d \<noteq> [])"

text \<open>\<open>e[key] in node_ids\<close>: the subscript raises on anything but a dictionary with the
  key, and the membership test raises on a value that cannot be hashed.\<close>

fun field_in :: "json \<Rightarrow> string \<Rightarrow> string list \<Rightarrow> bool outcome" where
  "field_in (JObject d) key node_ids =
     (case map_of d key of
        None \<Rightarrow> Raises ''KeyError''
      | Some (JString s) \<Rightarrow> Returns (s \<in> set node_ids)
      | Some (JArray xs) \<Rightarrow> Raises ''TypeError''
      | Some (JObject x) \<Rightarrow> Raises ''TypeError''
      | Some v \<Rightarrow> Returns False)"
| "field_in e key node_ids = Raises ''TypeError''"

text \<open>\<open>[e for e in edges if e["source"] in node_ids and e["target"] in node_ids]\<close>\<close>

fun valid_edges_of :: "string list \<Rightarrow> json list \<Rightarrow> json list outcome" where
  "valid_edges_of node_ids [] = Returns []"
| "valid_edges_of node_ids (e # es) =
     (case field_in e ''source'' node_ids of
        Raises x \<Rightarrow> Raises x
      | Returns False \<Rightarrow> valid_edges_of node_ids es
      | Returns True \<Rightarrow>
          (case field_in e ''target'' node_ids of
             Raises x \<Rightarrow> Raises x
           | Returns False \<Rightarrow> valid_edges_of node_ids es
           | Returns True \<Rightarrow>
               (case valid_edges_of node_ids es of
                  Raises x \<Rightarrow> Raises x
                | Returns vs \<Rightarrow> Returns (e # vs))))"

text \<open>\<open>themes[:6]\<close>\<close>

fun first_six :: "json \<Rightarrow> json outcome" where
  "first_six (JArray xs) = Returns (JArray (take 6 xs))"
| "first_six (JString s) = Returns (JString (take 6 s))"
| "first_six v = Raises ''TypeError''"

definition full_llm_graph :: "string \<Rightarrow> llm_reply \<Rightarrow> supabase \<Rightarrow> json outcome \<times> supabase" where
  "full_llm_graph text_in reply db =
     (case run_llm ''You are a narrative graph builder. Extract entities and relationships from the text.''
             (take 5000 text_in) reply db of
        (Raises e, db1) \<Rightarrow> (Raises e, db1)
      | (Returns result, db1) \<Rightarrow>
          (case json_loads result of
             Returns j \<Rightarrow> (Returns j, db1)
           | Raises e \<Rightarrow>
               (Returns (JObject [(''nodes'', JArray []), (''edges'', JArray []),
                                  (''summary'', JString ''Could not parse narrative.''),
                                  (''themes'', JArray [])]), db1)))"

text \<open>
  Steps 3 and 4 of \<open>build_graph\<close>, from the parsed reply on: the attributes are merged
  into the nodes, the edges are filtered (\<open>edges_in\<close> is the comprehension over whatever
  \<open>llm_data.get("edges", [])\<close> is), the themes chosen (\<open>llm_data.get("themes") or
  heuristic_themes\<close>) and capped.
\<close>

fun edges_in :: "string list \<Rightarrow> json \<Rightarrow> json list outcome" where
  "edges_in node_ids (JArray edges) = valid_edges_of node_ids edges"
| "edges_in node_ids (JObject []) = Returns []"
| "edges_in node_ids (JString []) = Returns []"
| "edges_in node_ids v = Raises ''TypeError''"

definition themes_or :: "json \<Rightarrow> string list \<Rightarrow> json" where
  "themes_or t heuristic_themes = (if truthy t then t else JArray (map JString heuristic_themes))"

definition assemble_graph :: "entity list \<Rightarrow> string list \<Rightarrow> json \<Rightarrow> json outcome" where
  "assemble_graph raw_entities heuristic_themes llm_data =
     (case llm_data of
        JObject d \<Rightarrow>
          (case dict_get d ''entity_attributes'' (JObject []) of
             JObject enriched_attrs \<Rightarrow>
               (let nodes = map (\<lambda>entity.
                        JObject [(''id'', JString (ent_id entity)),
                                 (''label'', JString (ent_label entity)),
                                 (''type'', JString (ent_type entity)),
                                 (''attributes'',
                                    dict_get enriched_attrs (ent_id entity) (JObject []))])
                      raw_entities;
                    node_ids = map ent_id raw_entities;
                    valid_edges = edges_in node_ids (dict_get d ''edges'' (JArray []));
                    themes = themes_or (dict_get d ''themes'' JNull) heuristic_themes
                in (case valid_edges of
                      Raises e \<Rightarrow> Raises e
                    | Returns ves \<Rightarrow>
                        (case first_six themes of
                           Raises e \<Rightarrow> Raises e
                         | Returns six \<Rightarrow>
                             Returns (JObject
                                [(''nodes'', JArray nodes),
                                 (''edges'', JArray ves),
                                 (''summary'', dict_get d ''summary'' (JString [])),
                                 (''themes'', six)]))))
           | _ \<Rightarrow> Raises ''AttributeError'')
      | _ \<Rightarrow> Raises ''AttributeError'')"

definition build_graph :: "string \<Rightarrow> entity list \<Rightarrow> string list \<Rightarrow> llm_reply \<Rightarrow> supabase
    \<Rightarrow> json outcome \<times> supabase" where
  "build_graph text_in raw_entities heuristic_themes reply db =
     (if raw_entities = [] then full_llm_graph text_in reply db
      else
        (case run_llm ''You are a narrative analysis engine.'' (take 4000 text_in) reply db of
           (Raises e, db1) \<Rightarrow> (Raises e, db1)
         | (Returns llm_output, db1) \<Rightarrow>
             (let llm_data =
                    (case json_loads llm_output of
                       Returns j \<Rightarrow> j
                     | Raises e \<Rightarrow>
                         JObject [(''edges'', JArray []), (''entity_attributes'', JObject []),
                                  (''summary'', JString []),
                                  (''themes'', JArray (map JString heuristic_themes))])
              in (assemble_graph raw_entities heuristic_themes llm_data, db1))))"

text \<open>\<open>{**graph_data, "credits_remaining": credits_remaining}\<close>\<close>

definition dict_set :: "string \<Rightarrow> 'v \<Rightarrow> (string \<times> 'v) list \<Rightarrow> (string \<times> 'v) list" where
  "dict_set key v d =
     (if key \<in> set (map fst d) then map (\<lambda>(k, x). if k = key then (k, v) else (k, x)) d
      else d @ [(key, v)])"

definition mindmap :: "string \<Rightarrow> user_id \<Rightarrow> entity list \<Rightarrow> string list \<Rightarrow> llm_reply
    \<Rightarrow> string option \<Rightarrow> supabase \<Rightarrow> (http_error + (string \<times> json) list) \<times> supabase" where
  "mindmap body_text uid raw_entities heuristic_themes reply log_error db =
     (let COST = the (map_of CREDIT_COST ''mindmap'')
      in case deduct_credits_rpc uid COST db of
           (False, db1) \<Rightarrow> (Inl (insufficient_credits COST (get_user_credits uid db1)), db1)
         | (True, db1) \<Rightarrow>
             (case build_graph body_text raw_entities heuristic_themes reply db1 of
                (Raises e, db2) \<Rightarrow>
                  (case add_credits_row uid COST db2 of
                     (Raises x, db3) \<Rightarrow> (Inl (Unhandled x), db3)
                   | (Returns n, db3) \<Rightarrow>
                       (Inl (HTTPException 500 (JString (''Mindmap generation failed: '' @ e))),
                        db3))
              | (Returns graph_data, db2) \<Rightarrow>
                  (let credits_remaining = get_user_credits uid db2
                   in case log_analysis uid ''mindmap'' body_text graph_data COST None
                             log_error db2 of
                        (Raises e, db3) \<Rightarrow> (Inl (Unhandled e), db3)
                      | (Returns u, db3) \<Rightarrow>
                          (case graph_data of
                             JObject g \<Rightarrow>
                               (Inr (dict_set ''credits_remaining'' (JInt credits_remaining) g), db3)
                           | _ \<Rightarrow> (Inl (Unhandled ''TypeError''), db3)))))"

text \<open>The node ids of a returned graph and the ids its edges name.\<close>

fun node_ids_of :: "json \<Rightarrow> string list" where
  "node_ids_of (JObject g) =
     (case map_of g ''nodes'' of
        Some (JArray ns) \<Rightarrow>
          concat (map (\<lambda>n. case n of
                              JObject nd \<Rightarrow> (case map_of nd ''id'' of Some (JString s) \<Rightarrow> [s] | _ \<Rightarrow> [])
                            | _ \<Rightarrow> []) ns)
      | _ \<Rightarrow> [])"
| "node_ids_of v = []"

fun edges_of :: "json \<Rightarrow> json list" where
  "edges_of (JObject g) = (case map_of g ''edges'' of Some (JArray es) \<Rightarrow> es | _ \<Rightarrow> [])"
| "edges_of v = []"

definition edge_integrity :: "json \<Rightarrow> bool" where
  "edge_integrity g =
     list_all (\<lambda>e. field_in e ''source'' (node_ids_of g) = Returns True
                  \<and> field_in e ''target'' (node_ids_of g) = Returns True) (edges_of g)"

subsection \<open>The request schema of the layered enhance endpoint\<close>

text \<open>
  \<open>EnhanceRequest\<close> of \<open>models/schemas.py\<close>: \<open>text\<close> of 10 to 20000 characters and
  \<open>persona\<close> a \<open>PersonaEnum\<close>. The framework validates the body against it before the
  handler runs and answers 422 when it does not fit.
\<close>

definition PersonaEnum_of :: "string \<Rightarrow> PersonaEnum option" where
  "PersonaEnum_of s =
     find (\<lambda>p. persona_value p = s) [technical, business, finance, simplified, comedian, poet]"

definition EnhanceRequest :: "string \<Rightarrow> string \<Rightarrow> (string \<times> PersonaEnum) option" where
  "EnhanceRequest text_in persona =
     (if length text_in < 10 \<or> length text_in > 20000 then None
      else case PersonaEnum_of persona of None \<Rightarrow> None | Some p \<Rightarrow> Some (text_in, p))"

definition enhance_endpoint :: "string \<Rightarrow> string \<Rightarrow> user_id \<Rightarrow> string list \<times> string option
    \<Rightarrow> string option \<Rightarrow> supabase \<Rightarrow> (http_error + sse list) \<times> supabase" where
  "enhance_endpoint text_in persona uid stream log_error db =
     (case EnhanceRequest text_in persona of
        None \<Rightarrow> (Inl (HTTPException 422 (JString ''validation error'')), db)
      | Some (body_text, body_persona) \<Rightarrow> enhance body_text body_persona uid stream log_error db)"

subsection \<open>Reservations in a row, and interleaved\<close>

text \<open>\<open>n\<close> calls of the legacy \<open>deduct_credits\<close> for one user, one after the other.\<close>

fun reserve_all :: "user_id \<Rightarrow> int \<Rightarrow> nat \<Rightarrow> world \<Rightarrow> bool list \<times> world" where
  "reserve_all uid amount 0 w = ([], w)"
| "reserve_all uid amount (Suc n) w =
     (case deduct_credits uid amount w of
        (ok, w1) \<Rightarrow> (case reserve_all uid amount n w1 of (oks, w2) \<Rightarrow> (ok # oks, w2)))"

text \<open>
  The legacy \<open>deduct_credits\<close> talks to the store twice: \<open>get_user_by_id\<close> reads the
  document, \<open>update_one\<close> sends the \<open>$inc\<close>. \<open>deduct_step\<close> is one of the two: a call
  that has not started reads and compares; a call that has read sends its increment,
  which the store applies to the balance it holds then. \<open>run_schedule\<close> lets several
  calls take their steps in a given order.
\<close>

datatype deduct_pc = NotStarted | HasRead | Returned bool

fun deduct_step :: "user_id \<Rightarrow> int \<Rightarrow> deduct_pc \<Rightarrow> world \<Rightarrow> deduct_pc \<times> world" where
  "deduct_step uid amount NotStarted w =
     (case users w uid of
        None \<Rightarrow> (Returned False, w)
      | Some c \<Rightarrow> if c < amount then (Returned False, w) else (HasRead, w))"
| "deduct_step uid amount HasRead w =
     (Returned True,
      case users w uid of None \<Rightarrow> w
      | Some c \<Rightarrow> w\<lparr>users := (users w)(uid \<mapsto> c - amount)\<rparr>)"
| "deduct_step uid amount (Returned b) w = (Returned b, w)"

fun run_schedule :: "user_id \<Rightarrow> int \<Rightarrow> nat list \<Rightarrow> deduct_pc list \<times> world
    \<Rightarrow> deduct_pc list \<times> world" where
  "run_schedule uid amount [] s = s"
| "run_schedule uid amount (t # ts) (pcs, w) =
     (if t < length pcs then
        (case deduct_step uid amount (pcs ! t) w of
           (pc', w') \<Rightarrow> run_schedule uid amount ts (pcs[t := pc'], w'))
      else run_schedule uid amount ts (pcs, w))"

subsection \<open>Example stores and requests\<close>

definition world_with :: "int \<Rightarrow> world" where
  "world_with c = \<lparr>users = [''u1'' \<mapsto> c], documents = [], enhancements = [], groq_calls = []\<rparr>"

definition supabase_with :: "int \<Rightarrow> supabase" where
  "supabase_with c = \<lparr>profiles = [''u1'' \<mapsto> c], analyses = [], llm_calls = []\<rparr>"

definition request_with :: "string \<Rightarrow> string \<Rightarrow> request" where
  "request_with t p =
     \<lparr>req_text = Some t, req_persona = Some p, req_doc_id = None, req_title = None\<rparr>"

section \<open>Properties of the credit ledger\<close>

lemma run_llm_snd: "snd (run_llm sp ut reply db) = db\<lparr>llm_calls := llm_calls db @ [(sp, ut)]\<rparr>"
  by (simp add: run_llm_def)

lemma run_llm_fst: "fst (run_llm sp ut reply db) = fst (run_llm sp ut reply db')"
  by (simp add: run_llm_def)

lemma full_llm_graph_db:
  "fst (full_llm_graph t reply db) = fst (full_llm_graph t reply db')"
  "analyses (snd (full_llm_graph t reply db)) = analyses db"
  "profiles (snd (full_llm_graph t reply db)) = profiles db"
  by (cases reply; simp add: full_llm_graph_def run_llm_def split: outcome.splits)+

lemma build_graph_db:
  "fst (build_graph t ents th reply db) = fst (build_graph t ents th reply db')"
  "analyses (snd (build_graph t ents th reply db)) = analyses db"
  "profiles (snd (build_graph t ents th reply db)) = profiles db"
  using full_llm_graph_db(1)[of t reply db db'] full_llm_graph_db(2,3)[of t reply db]
  by (cases reply; simp add: build_graph_def run_llm_def Let_def)+

lemma persona_enhance_called:
  assumes "strip (case req_text data of None \<Rightarrow> [] | Some t \<Rightarrow> t) \<noteq> []"
    and "length (strip (case req_text data of None \<Rightarrow> [] | Some t \<Rightarrow> t)) \<le> 50000"
    and "(case req_persona data of None \<Rightarrow> ''simplified'' | Some p \<Rightarrow> p) \<in> set (map fst PERSONAS)"
    and "users w uid = Some c" and "1 \<le> c"
  shows "persona_enhance data uid (Raises e) new_id w
           = (Response 500 [(''error'', JString (''AI error: '' @ e))],
              w\<lparr>users := (users w)(uid \<mapsto> c),
                groq_calls := groq_calls w @
                  [(persona_system (dict_get PERSONAS
                      (case req_persona data of None \<Rightarrow> ''simplified'' | Some p \<Rightarrow> p)
                      (persona_of ''simplified'')),
                    strip (case req_text data of None \<Rightarrow> [] | Some t \<Rightarrow> t))]\<rparr>)"
    and "users (snd (persona_enhance data uid (Returns r) new_id w)) uid = Some (c - 1)"
proof -
  have d: "deduct_credits uid 1 w = (True, w\<lparr>users := (users w)(uid \<mapsto> c - 1)\<rparr>)"
    using assms(4,5) by (simp add: deduct_credits_def)
  show "persona_enhance data uid (Raises e) new_id w
           = (Response 500 [(''error'', JString (''AI error: '' @ e))],
              w\<lparr>users := (users w)(uid \<mapsto> c),
                groq_calls := groq_calls w @
                  [(persona_system (dict_get PERSONAS
                      (case req_persona data of None \<Rightarrow> ''simplified'' | Some p \<Rightarrow> p)
                      (persona_of ''simplified'')),
                    strip (case req_text data of None \<Rightarrow> [] | Some t \<Rightarrow> t))]\<rparr>)"
    using assms(1,2,3)
    by (simp add: persona_enhance_def Let_def d enhance_with_persona_def add_credits_def)
  show "users (snd (persona_enhance data uid (Returns r) new_id w)) uid = Some (c - 1)"
  proof (cases r)
    case (JObject result)
    show ?thesis
      using assms(1,2,3) unfolding JObject
      by (cases "dict_get result ''enhanced_text'' (JString [])")
         (simp_all add: persona_enhance_def Let_def d enhance_with_persona_def save_document_def
            save_enhancement_def case_prod_beta)
  qed (use assms(1,2,3) in \<open>simp_all add: persona_enhance_def Let_def d enhance_with_persona_def\<close>)
qed

lemma mindmap_reserved:
  assumes "profiles db uid = Some k" and "2 \<le> k"
  shows "fst (build_graph body_text raw_entities heuristic_themes reply db) = Returns g \<Longrightarrow>
           profiles (snd (mindmap body_text uid raw_entities heuristic_themes reply log_error db)) uid
             = Some (k - 2)"
    and "fst (build_graph body_text raw_entities heuristic_themes reply db) = Raises e \<Longrightarrow>
           fst (mindmap body_text uid raw_entities heuristic_themes reply log_error db)
             = Inl (Unhandled ''AttributeError'')
           \<and> profiles (snd (mindmap body_text uid raw_entities heuristic_themes reply log_error db)) uid
             = Some (k - 2)
           \<and> analyses (snd (mindmap body_text uid raw_entities heuristic_themes reply log_error db))
             = analyses db"
proof -
  let ?db1 = "db\<lparr>profiles := (profiles db)(uid \<mapsto> k - 2)\<rparr>"
  have d: "deduct_credits_rpc uid 2 db = (True, ?db1)"
    using assms by (simp add: deduct_credits_rpc_def)
  obtain r db2 where b: "build_graph body_text raw_entities heuristic_themes reply ?db1 = (r, db2)"
    by (cases "build_graph body_text raw_entities heuristic_themes reply ?db1") auto
  have p2: "profiles db2 = profiles ?db1" and a2: "analyses db2 = analyses db"
    using build_graph_db(2,3)[of body_text raw_entities heuristic_themes reply ?db1] b by simp_all
  have r: "fst (build_graph body_text raw_entities heuristic_themes reply db) = r"
    using build_graph_db(1)[of body_text raw_entities heuristic_themes reply db ?db1] b by simp
  have m: "mindmap body_text uid raw_entities heuristic_themes reply log_error db =
     (case r of
        Raises e \<Rightarrow> (Inl (Unhandled ''AttributeError''), db2)
      | Returns graph_data \<Rightarrow>
          (case log_analysis uid ''mindmap'' body_text graph_data 2 None log_error db2 of
             (Raises e, db3) \<Rightarrow> (Inl (Unhandled e), db3)
           | (Returns u, db3) \<Rightarrow>
               (case graph_data of
                  JObject g \<Rightarrow>
                    (Inr (dict_set ''credits_remaining'' (JInt (get_user_credits uid db2)) g), db3)
                | _ \<Rightarrow> (Inl (Unhandled ''TypeError''), db3))))"
    by (cases r) (simp_all add: mindmap_def CREDIT_COST_def d b Let_def add_credits_row_def)
  have l: "profiles (snd (log_analysis uid ''mindmap'' body_text gd 2 None log_error db2)) = profiles db2" for gd
    by (cases log_error) (simp_all add: log_analysis_def)
  show "fst (build_graph body_text raw_entities heuristic_themes reply db) = Returns g \<Longrightarrow>
           profiles (snd (mindmap body_text uid raw_entities heuristic_themes reply log_error db)) uid
             = Some (k - 2)"
  proof -
    assume "fst (build_graph body_text raw_entities heuristic_themes reply db) = Returns g"
    then have rg: "r = Returns g" using r by simp
    obtain o3 db3 where la: "log_analysis uid ''mindmap'' body_text g 2 None log_error db2 = (o3, db3)"
      by (cases "log_analysis uid ''mindmap'' body_text g 2 None log_error db2") auto
    have p3: "profiles db3 = profiles db2" using l[of g] la by simp
    show ?thesis
      unfolding m rg using la p3 p2
      by (cases o3; cases g) simp_all
  qed
  show "fst (build_graph body_text raw_entities heuristic_themes reply db) = Raises e \<Longrightarrow>
           fst (mindmap body_text uid raw_entities heuristic_themes reply log_error db)
             = Inl (Unhandled ''AttributeError'')
           \<and> profiles (snd (mindmap body_text uid raw_entities heuristic_themes reply log_error db)) uid
             = Some (k - 2)
           \<and> analyses (snd (mindmap body_text uid raw_entities heuristic_themes reply log_error db))
             = analyses db"
  proof -
    assume "fst (build_graph body_text raw_entities heuristic_themes reply db) = Raises e"
    then have rg: "r = Raises e" using r by simp
    show ?thesis
      unfolding m rg using p2 a2 assms by simp
  qed
qed

lemma PERSONAS_keys:
  "map fst PERSONAS = [''technical'', ''business'', ''finance'', ''simplified'', ''comedian'', ''poet'']"
  by (simp add: PERSONAS_def)

lemma strip_story: "strip ''A short story.'' = ''A short story.''"
  by (simp add: strip_def isspace_def)

text \<open>
  The legacy \<open>persona_enhance\<close> does what the claim says on the spec's scenario 3: with a
  balance of 5 and a downstream call that raises, its \<open>add_credits\<close> gives the credit
  back, the balance ends at 5 and no enhancement is stored.
\<close>

lemma persona_enhance_failure_refunds:
  "users (snd (persona_enhance (request_with ''A short story.'' ''poet'') ''u1''
                 (Raises ''timeout'') ''d1'' (world_with 5))) ''u1'' = Some 5
   \<and> enhancements (snd (persona_enhance (request_with ''A short story.'' ''poet'') ''u1''
                 (Raises ''timeout'') ''d1'' (world_with 5))) = []"
  using persona_enhance_called(1)[of "request_with ''A short story.'' ''poet''" "world_with 5"
      "''u1''" 5 "''timeout''" "''d1''"]
  by (simp add: world_with_def request_with_def strip_story PERSONAS_keys)

text \<open>
  Claim C1 does not hold of the layered \<open>mindmap\<close>. A user with a balance of 5 asks for a
  mind map (cost 2) and the call of the model raises. The handler catches the exception
  and calls \<open>add_credits\<close> to give the 2 credits back, but that call raises
  \<open>AttributeError\<close> before it reaches the store: the balance stays at 3, the caller gets
  the \<open>AttributeError\<close> in place of the handler's 500 response, and no audit record is
  written.
\<close>

theorem mindmap_failure_keeps_debit:
  "fst (mindmap ''A short story.'' ''u1'' [] [] (CallFails ''timeout'') None (supabase_with 5))
     = Inl (Unhandled ''AttributeError'')
   \<and> profiles (snd (mindmap ''A short story.'' ''u1'' [] [] (CallFails ''timeout'') None
                   (supabase_with 5))) ''u1'' = Some 3
   \<and> analyses (snd (mindmap ''A short story.'' ''u1'' [] [] (CallFails ''timeout'') None
                   (supabase_with 5))) = []"
proof -
  have f: "fst (build_graph ''A short story.'' [] [] (CallFails ''timeout'') (supabase_with 5))
           = Raises ''timeout''"
    by (simp add: build_graph_def full_llm_graph_def run_llm_def)
  have d: "profiles (supabase_with 5) ''u1'' = Some 5" "analyses (supabase_with 5) = []"
    by (simp_all add: supabase_with_def)
  show ?thesis
    using mindmap_reserved(2)[OF d(1) _ f, of None] by (simp add: d(2))
qed

subsection \<open>Reservation before the collaborator\<close>

lemma persona_enhance_calls_only_after_reserve:
  "groq_calls (snd (persona_enhance data uid llm new_id w)) \<noteq> groq_calls w
     \<Longrightarrow> \<exists>c. users w uid = Some c \<and> 1 \<le> c"
proof (rule ccontr)
  assume calls: "groq_calls (snd (persona_enhance data uid llm new_id w)) \<noteq> groq_calls w"
  assume "\<not> (\<exists>c. users w uid = Some c \<and> 1 \<le> c)"
  then have "deduct_credits uid 1 w = (False, w)"
    by (cases "users w uid") (auto simp: deduct_credits_def)
  then have "snd (persona_enhance data uid llm new_id w) = w"
    by (simp add: persona_enhance_def Let_def)
  with calls show False by simp
qed

lemma enhance_calls_only_after_reserve:
  "llm_calls (snd (enhance body_text p uid stream log_error db)) \<noteq> llm_calls db
     \<Longrightarrow> \<exists>c. profiles db uid = Some c \<and> 1 \<le> c"
proof (rule ccontr)
  assume calls: "llm_calls (snd (enhance body_text p uid stream log_error db)) \<noteq> llm_calls db"
  assume "\<not> (\<exists>c. profiles db uid = Some c \<and> 1 \<le> c)"
  then have "deduct_credits_rpc uid 1 db = (False, db)"
    by (cases "profiles db uid") (auto simp: deduct_credits_rpc_def)
  then have "snd (enhance body_text p uid stream log_error db) = db"
    by (simp add: enhance_def CREDIT_COST_def)
  with calls show False by simp
qed

text \<open>
  Claim C2, as amended. When the balance does not cover the cost, neither handler calls
  the model, the store is left as it was, and the caller gets a 402: the layered
  \<open>enhance\<close> reports the credits needed and the current credits, the legacy
  \<open>persona_enhance\<close> reports the credits required only. In both, a call of the model
  happens only after a reservation that succeeded.
\<close>

theorem reservation_precedes_downstream:
  "(strip (case req_text data of None \<Rightarrow> [] | Some t \<Rightarrow> t) \<noteq> []
      \<and> length (strip (case req_text data of None \<Rightarrow> [] | Some t \<Rightarrow> t)) \<le> 50000
      \<and> (case req_persona data of None \<Rightarrow> ''simplified'' | Some p \<Rightarrow> p) \<in> set (map fst PERSONAS)
      \<and> get_credits uid w < 1
    \<longrightarrow> persona_enhance data uid llm new_id w
          = (Response 402 [(''error'', JString ''Insufficient credits''),
                           (''credits_required'', JInt 1)], w))
   \<and> (get_user_credits uid db < 1
    \<longrightarrow> enhance body_text p uid stream log_error db
          = (Inl (HTTPException 402
                   (JObject [(''error'', JString ''insufficient_credits''),
                             (''credits_needed'', JInt 1),
                             (''current_credits'', JInt (get_user_credits uid db))])), db))
   \<and> (groq_calls (snd (persona_enhance data uid llm new_id w)) \<noteq> groq_calls w
    \<longrightarrow> (\<exists>c. users w uid = Some c \<and> 1 \<le> c))
   \<and> (llm_calls (snd (enhance body_text p uid stream log_error db)) \<noteq> llm_calls db
    \<longrightarrow> (\<exists>c. profiles db uid = Some c \<and> 1 \<le> c))"
proof (intro conjI impI)
  assume h: "strip (case req_text data of None \<Rightarrow> [] | Some t \<Rightarrow> t) \<noteq> []
      \<and> length (strip (case req_text data of None \<Rightarrow> [] | Some t \<Rightarrow> t)) \<le> 50000
      \<and> (case req_persona data of None \<Rightarrow> ''simplified'' | Some p \<Rightarrow> p) \<in> set (map fst PERSONAS)
      \<and> get_credits uid w < 1"
  then have "deduct_credits uid 1 w = (False, w)"
    by (cases "users w uid") (auto simp: deduct_credits_def get_credits_def)
  with h show "persona_enhance data uid llm new_id w
          = (Response 402 [(''error'', JString ''Insufficient credits''),
                           (''credits_required'', JInt 1)], w)"
    by (simp add: persona_enhance_def Let_def)
next
  assume h: "get_user_credits uid db < 1"
  then have "deduct_credits_rpc uid 1 db = (False, db)"
    by (cases "profiles db uid") (auto simp: deduct_credits_rpc_def get_user_credits_def)
  then show "enhance body_text p uid stream log_error db
          = (Inl (HTTPException 402
                   (JObject [(''error'', JString ''insufficient_credits''),
                             (''credits_needed'', JInt 1),
                             (''current_credits'', JInt (get_user_credits uid db))])), db)"
    by (simp add: enhance_def CREDIT_COST_def insufficient_credits_def)
next
  assume "groq_calls (snd (persona_enhance data uid llm new_id w)) \<noteq> groq_calls w"
  then show "\<exists>c. users w uid = Some c \<and> 1 \<le> c"
    by (rule persona_enhance_calls_only_after_reserve)
next
  assume "llm_calls (snd (enhance body_text p uid stream log_error db)) \<noteq> llm_calls db"
  then show "\<exists>c. profiles db uid = Some c \<and> 1 \<le> c"
    by (rule enhance_calls_only_after_reserve)
qed

lemma example_stores:
  "users (world_with c) ''u1'' = Some c" "enhancements (world_with c) = []"
  "groq_calls (world_with c) = []" "get_credits ''u1'' (world_with c) = c"
  "profiles (supabase_with c) ''u1'' = Some c" "analyses (supabase_with c) = []"
  "llm_calls (supabase_with c) = []" "get_user_credits ''u1'' (supabase_with c) = c"
  by (simp_all add: world_with_def supabase_with_def get_credits_def get_user_credits_def)

lemma example_request:
  "req_text (request_with t p) = Some t" "req_persona (request_with t p) = Some p"
  "req_doc_id (request_with t p) = None" "req_title (request_with t p) = None"
  by (simp_all add: request_with_def)

theorem reservation_precedes_downstream_witness:
  "(strip (case req_text (request_with ''A short story.'' ''poet'') of None \<Rightarrow> [] | Some t \<Rightarrow> t) \<noteq> []
      \<and> length (strip (case req_text (request_with ''A short story.'' ''poet'') of None \<Rightarrow> [] | Some t \<Rightarrow> t)) \<le> 50000
      \<and> (case req_persona (request_with ''A short story.'' ''poet'') of None \<Rightarrow> ''simplified'' | Some p \<Rightarrow> p)
          \<in> set (map fst PERSONAS)
      \<and> get_credits ''u1'' (world_with 0) < 1)
   \<and> persona_enhance (request_with ''A short story.'' ''poet'') ''u1'' (Returns JNull) ''d1'' (world_with 0)
       = (Response 402 [(''error'', JString ''Insufficient credits''),
                        (''credits_required'', JInt 1)], world_with 0)
   \<and> get_user_credits ''u1'' (supabase_with 0) < 1
   \<and> enhance ''A short story.'' poet ''u1'' ([''Once''], None) None (supabase_with 0)
       = (Inl (HTTPException 402
                (JObject [(''error'', JString ''insufficient_credits''),
                          (''credits_needed'', JInt 1),
                          (''current_credits'', JInt 0)])), supabase_with 0)
   \<and> groq_calls (snd (persona_enhance (request_with ''A short story.'' ''poet'') ''u1''
                        (Raises ''timeout'') ''d1'' (world_with 5))) \<noteq> groq_calls (world_with 5)
   \<and> (\<exists>c. users (world_with 5) ''u1'' = Some c \<and> 1 \<le> c)
   \<and> llm_calls (snd (enhance ''A short story.'' poet ''u1'' ([], Some ''timeout'') None
                        (supabase_with 5))) \<noteq> llm_calls (supabase_with 5)
   \<and> (\<exists>c. profiles (supabase_with 5) ''u1'' = Some c \<and> 1 \<le> c)"
proof -
  have g: "groq_calls (snd (persona_enhance (request_with ''A short story.'' ''poet'') ''u1''
                        (Raises ''timeout'') ''d1'' (world_with 5))) \<noteq> groq_calls (world_with 5)"
    using persona_enhance_called(1)[of "request_with ''A short story.'' ''poet''" "world_with 5"
        "''u1''" 5 "''timeout''" "''d1''"]
    by (simp add: example_stores example_request strip_story PERSONAS_keys)
  have d: "deduct_credits_rpc ''u1'' 1 (supabase_with 5)
           = (True, (supabase_with 5)\<lparr>profiles := (profiles (supabase_with 5))(''u1'' \<mapsto> 4)\<rparr>)"
    by (simp add: deduct_credits_rpc_def example_stores)
  have l: "llm_calls (snd (enhance ''A short story.'' poet ''u1'' ([], Some ''timeout'') None
                        (supabase_with 5))) \<noteq> llm_calls (supabase_with 5)"
    by (simp add: enhance_def CREDIT_COST_def d event_generator_def stream_enhance_text_def
        add_credits_row_def example_stores Let_def)
  show ?thesis
    using g l
      reservation_precedes_downstream[of "request_with ''A short story.'' ''poet''" "''u1''"
        "world_with 0" "Returns JNull" "''d1''" "supabase_with 0" "''A short story.''" poet
        "([''Once''], None)" None]
      reservation_precedes_downstream[of "request_with ''A short story.'' ''poet''" "''u1''"
        "world_with 5" "Raises ''timeout''" "''d1''" "supabase_with 5" "''A short story.''" poet
        "([], Some ''timeout'')" None]
    by (simp add: example_stores example_request strip_story PERSONAS_keys)
qed

text \<open>
  Claim C2 as stated fails in the legacy handler: with a balance of 0 its 402 body holds
  \<open>error\<close> and \<open>credits_required\<close> and does not report the current credits.
\<close>

theorem legacy_insufficient_counterexample:
  "persona_enhance (request_with ''A short story.'' ''poet'') ''u1'' (Returns JNull) ''d1'' (world_with 0)
     = (Response 402 [(''error'', JString ''Insufficient credits''),
                      (''credits_required'', JInt 1)], world_with 0)"
proof -
  have "deduct_credits ''u1'' 1 (world_with 0) = (False, world_with 0)"
    by (simp add: deduct_credits_def example_stores)
  then show ?thesis
    by (simp add: persona_enhance_def Let_def example_request strip_story PERSONAS_keys)
qed

text \<open>The spec's scenario 2 on the layered \<open>consistency\<close> (cost 2): below the cost the
  handler answers 402 with both numbers and touches nothing.\<close>

lemma consistency_insufficient:
  "get_user_credits uid db < 2 \<Longrightarrow>
   consistency body_text uid reply log_error db
     = (Inl (insufficient_credits 2 (get_user_credits uid db)), db)"
proof -
  assume "get_user_credits uid db < 2"
  then have "deduct_credits_rpc uid 2 db = (False, db)"
    by (cases "profiles db uid") (auto simp: deduct_credits_rpc_def get_user_credits_def)
  then show ?thesis
    by (simp add: consistency_def CREDIT_COST_def)
qed

subsection \<open>A failing audit write\<close>

lemma consistency_reserved:
  assumes "profiles db uid = Some k" and "2 \<le> k"
  shows "consistency body_text uid (Reply raw (Some j)) log_error db =
     (case log_analysis uid ''consistency'' body_text j 2 None log_error
             (db\<lparr>profiles := (profiles db)(uid \<mapsto> k - 2),
                 llm_calls := llm_calls db @
                   [(''You are a narrative consistency analysis engine.'', body_text)]\<rparr>) of
        (Raises e, db3) \<Rightarrow> (Inl (Unhandled e), db3)
      | (Returns u, db3) \<Rightarrow>
          (case j of
             JObject r \<Rightarrow>
               (Inr [(''issues'', dict_get r ''issues'' (JArray [])),
                     (''score'', dict_get r ''score'' (JInt 50)),
                     (''summary'', dict_get r ''summary'' (JString [])),
                     (''credits_remaining'', JInt (k - 2))], db3)
           | _ \<Rightarrow> (Inl (Unhandled ''AttributeError''), db3)))"
proof -
  have d: "deduct_credits_rpc uid 2 db = (True, db\<lparr>profiles := (profiles db)(uid \<mapsto> k - 2)\<rparr>)"
    using assms by (simp add: deduct_credits_rpc_def)
  show ?thesis
    by (cases log_error; cases j)
       (simp_all add: consistency_def CREDIT_COST_def d run_llm_def json_loads_def Let_def
          get_user_credits_def log_analysis_def)
qed

text \<open>
  Claim C3, as amended. In the layered \<open>consistency\<close> and \<open>mindmap\<close> handlers, when the
  balance covered the cost, the downstream work returned and the audit write raises: no
  refund is issued (the balance stays at the old balance minus the cost) and nothing is
  logged, but the failure is not swallowed; the exception leaves the handler and the
  caller gets an error, not the result.
\<close>

theorem audit_write_failure_propagates:
  "(profiles db uid = Some k \<and> 2 \<le> k
    \<longrightarrow> fst (consistency body_text uid (Reply raw (Some j)) (Some e) db) = Inl (Unhandled e)
      \<and> profiles (snd (consistency body_text uid (Reply raw (Some j)) (Some e) db)) uid = Some (k - 2)
      \<and> analyses (snd (consistency body_text uid (Reply raw (Some j)) (Some e) db)) = analyses db)
   \<and> (profiles db uid = Some k \<and> 2 \<le> k
      \<and> fst (build_graph body_text raw_entities heuristic_themes reply db) = Returns g
    \<longrightarrow> fst (mindmap body_text uid raw_entities heuristic_themes reply (Some e) db) = Inl (Unhandled e)
      \<and> profiles (snd (mindmap body_text uid raw_entities heuristic_themes reply (Some e) db)) uid
          = Some (k - 2)
      \<and> analyses (snd (mindmap body_text uid raw_entities heuristic_themes reply (Some e) db))
          = analyses db)"
proof (intro conjI impI)
  assume h: "profiles db uid = Some k \<and> 2 \<le> k"
  then have c: "consistency body_text uid (Reply raw (Some j)) (Some e) db =
      (Inl (Unhandled e),
       db\<lparr>profiles := (profiles db)(uid \<mapsto> k - 2),
          llm_calls := llm_calls db @
            [(''You are a narrative consistency analysis engine.'', body_text)]\<rparr>)"
    using consistency_reserved[of db uid k body_text raw j "Some e"]
    by (simp add: log_analysis_def)
  show "fst (consistency body_text uid (Reply raw (Some j)) (Some e) db) = Inl (Unhandled e)"
    and "profiles (snd (consistency body_text uid (Reply raw (Some j)) (Some e) db)) uid = Some (k - 2)"
    and "analyses (snd (consistency body_text uid (Reply raw (Some j)) (Some e) db)) = analyses db"
    unfolding c by simp_all
next
  assume h: "profiles db uid = Some k \<and> 2 \<le> k
      \<and> fst (build_graph body_text raw_entities heuristic_themes reply db) = Returns g"
  let ?db1 = "db\<lparr>profiles := (profiles db)(uid \<mapsto> k - 2)\<rparr>"
  have d: "deduct_credits_rpc uid 2 db = (True, ?db1)"
    using h by (simp add: deduct_credits_rpc_def)
  obtain r db2 where b: "build_graph body_text raw_entities heuristic_themes reply ?db1 = (r, db2)"
    by (cases "build_graph body_text raw_entities heuristic_themes reply ?db1") auto
  have p2: "profiles db2 = profiles ?db1" and a2: "analyses db2 = analyses db"
    using build_graph_db(2,3)[of body_text raw_entities heuristic_themes reply ?db1] b by simp_all
  have r: "r = Returns g"
    using build_graph_db(1)[of body_text raw_entities heuristic_themes reply db ?db1] b h by simp
  have m: "mindmap body_text uid raw_entities heuristic_themes reply (Some e) db
           = (Inl (Unhandled e), db2)"
    by (simp add: mindmap_def CREDIT_COST_def d b r Let_def log_analysis_def)
  show "fst (mindmap body_text uid raw_entities heuristic_themes reply (Some e) db) = Inl (Unhandled e)"
    and "profiles (snd (mindmap body_text uid raw_entities heuristic_themes reply (Some e) db)) uid
          = Some (k - 2)"
    and "analyses (snd (mindmap body_text uid raw_entities heuristic_themes reply (Some e) db))
          = analyses db"
    unfolding m using p2 a2 by simp_all
qed

theorem audit_write_failure_propagates_witness:
  "(profiles (supabase_with 5) ''u1'' = Some 5 \<and> (2::int) \<le> 5)
   \<and> fst (consistency ''A short story.'' ''u1'' (Reply ''{}'' (Some (JObject [])))
            (Some ''connection reset'') (supabase_with 5)) = Inl (Unhandled ''connection reset'')
   \<and> profiles (snd (consistency ''A short story.'' ''u1'' (Reply ''{}'' (Some (JObject [])))
            (Some ''connection reset'') (supabase_with 5))) ''u1'' = Some 3
   \<and> analyses (snd (consistency ''A short story.'' ''u1'' (Reply ''{}'' (Some (JObject [])))
            (Some ''connection reset'') (supabase_with 5))) = []
   \<and> fst (build_graph ''A short story.'' [] [] (Reply ''{}'' (Some (JObject []))) (supabase_with 5))
       = Returns (JObject [])
   \<and> fst (mindmap ''A short story.'' ''u1'' [] [] (Reply ''{}'' (Some (JObject [])))
            (Some ''connection reset'') (supabase_with 5)) = Inl (Unhandled ''connection reset'')
   \<and> profiles (snd (mindmap ''A short story.'' ''u1'' [] [] (Reply ''{}'' (Some (JObject [])))
            (Some ''connection reset'') (supabase_with 5))) ''u1'' = Some 3
   \<and> analyses (snd (mindmap ''A short story.'' ''u1'' [] [] (Reply ''{}'' (Some (JObject [])))
            (Some ''connection reset'') (supabase_with 5))) = []"
proof -
  have f: "fst (build_graph ''A short story.'' [] [] (Reply ''{}'' (Some (JObject []))) (supabase_with 5))
           = Returns (JObject [])"
    by (simp add: build_graph_def full_llm_graph_def run_llm_def json_loads_def)
  show ?thesis
    using f audit_write_failure_propagates[of "supabase_with 5" "''u1''" 5 "''A short story.''"
        "''{}''" "JObject []" "''connection reset''" "[]" "[]" "Reply ''{}'' (Some (JObject []))"
        "JObject []"]
    by (simp add: example_stores)
qed

text \<open>
  Claim C3 as stated fails: in \<open>consistency\<close>, with a balance of 5, a reply that parses
  and an audit write that raises, the caller gets the exception and not a success; the
  balance stays at 3.
\<close>

theorem audit_write_failure_counterexample:
  "fst (consistency ''A short story.'' ''u1'' (Reply ''{}'' (Some (JObject [])))
          (Some ''connection reset'') (supabase_with 5)) = Inl (Unhandled ''connection reset'')
   \<and> profiles (snd (consistency ''A short story.'' ''u1'' (Reply ''{}'' (Some (JObject [])))
          (Some ''connection reset'') (supabase_with 5))) ''u1'' = Some 3"
  using consistency_reserved[of "supabase_with 5" "''u1''" 5 "''A short story.''" "''{}''"
      "JObject []" "Some ''connection reset''"]
  by (simp add: example_stores log_analysis_def)

text \<open>
  In the streaming \<open>enhance\<close> the audit write stands inside the \<open>try\<close> block whose
  handler calls \<open>add_credits\<close>: when the stream completes and the write raises, the
  handler's refund call raises in its turn, the stream ends after the tokens without a
  final event, and the debit stands.
\<close>

lemma enhance_audit_write_failure_aborts:
  assumes "profiles db uid = Some k" and "1 \<le> k"
  shows "fst (enhance body_text p uid (chunks, None) (Some e) db)
           = Inr (map TokenEvent (filter (\<lambda>token. token \<noteq> []) chunks)
                  @ [GeneratorRaises ''AttributeError''])"
    and "profiles (snd (enhance body_text p uid (chunks, None) (Some e) db)) uid = Some (k - 1)"
    and "analyses (snd (enhance body_text p uid (chunks, None) (Some e) db)) = analyses db"
proof -
  have d: "deduct_credits_rpc uid 1 db = (True, db\<lparr>profiles := (profiles db)(uid \<mapsto> k - 1)\<rparr>)"
    using assms by (simp add: deduct_credits_rpc_def)
  show "fst (enhance body_text p uid (chunks, None) (Some e) db)
           = Inr (map TokenEvent (filter (\<lambda>token. token \<noteq> []) chunks)
                  @ [GeneratorRaises ''AttributeError''])"
    and "profiles (snd (enhance body_text p uid (chunks, None) (Some e) db)) uid = Some (k - 1)"
    and "analyses (snd (enhance body_text p uid (chunks, None) (Some e) db)) = analyses db"
    by (simp_all add: enhance_def CREDIT_COST_def d event_generator_def stream_enhance_text_def
        log_analysis_def add_credits_row_def Let_def)
qed

subsection \<open>Persona resolution\<close>

lemma PersonaEnum_of_None:
  "persona \<notin> set (map persona_value [technical, business, finance, simplified, comedian, poet])
     \<Longrightarrow> PersonaEnum_of persona = None"
  by (auto simp: PersonaEnum_of_def)

text \<open>
  Claim C9, as amended. The legacy handler \<open>persona_enhance\<close> rejects a persona key that
  is not one of the six with a 400 and leaves the store as it was (no credit reserved, no
  call of the model); a request without a persona field is handled as \<open>simplified\<close>.
  The fallback to \<open>simplified\<close> inside \<open>enhance_with_persona\<close> is what an unknown key
  would get there. In the layered variant a persona that is not one of the six does not
  pass the request schema: the endpoint answers 422 and leaves the store as it was.
\<close>

theorem persona_resolution:
  "(req_persona data = Some key \<and> key \<notin> set (map fst PERSONAS)
    \<longrightarrow> (\<exists>body. persona_enhance data uid llm new_id w = (Response 400 body, w)))
   \<and> persona_enhance (data\<lparr>req_persona := None\<rparr>) uid llm new_id w
       = persona_enhance (data\<lparr>req_persona := Some ''simplified''\<rparr>) uid llm new_id w
   \<and> (key \<notin> set (map fst PERSONAS)
    \<longrightarrow> dict_get PERSONAS key (persona_of ''simplified'') = persona_of ''simplified'')
   \<and> (persona \<notin> set (map persona_value [technical, business, finance, simplified, comedian, poet])
    \<longrightarrow> enhance_endpoint text_in persona uid stream log_error db
          = (Inl (HTTPException 422 (JString ''validation error'')), db))"
proof (intro conjI impI)
  assume "req_persona data = Some key \<and> key \<notin> set (map fst PERSONAS)"
  then show "\<exists>body. persona_enhance data uid llm new_id w = (Response 400 body, w)"
    by (simp add: persona_enhance_def Let_def)
next
  show "persona_enhance (data\<lparr>req_persona := None\<rparr>) uid llm new_id w
       = persona_enhance (data\<lparr>req_persona := Some ''simplified''\<rparr>) uid llm new_id w"
    by (simp add: persona_enhance_def)
next
  assume "key \<notin> set (map fst PERSONAS)"
  then have "map_of PERSONAS key = None"
    by (simp add: map_of_eq_None_iff)
  then show "dict_get PERSONAS key (persona_of ''simplified'') = persona_of ''simplified''"
    by (simp add: dict_get_def)
next
  assume "persona \<notin> set (map persona_value [technical, business, finance, simplified, comedian, poet])"
  then have "PersonaEnum_of persona = None"
    by (rule PersonaEnum_of_None)
  then show "enhance_endpoint text_in persona uid stream log_error db
          = (Inl (HTTPException 422 (JString ''validation error'')), db)"
    by (simp add: enhance_endpoint_def EnhanceRequest_def)
qed

theorem persona_resolution_witness:
  "(req_persona (request_with ''A short story.'' ''pirate'') = Some ''pirate''
      \<and> ''pirate'' \<notin> set (map fst PERSONAS))
   \<and> (\<exists>body. persona_enhance (request_with ''A short story.'' ''pirate'') ''u1'' (Returns JNull)
               ''d1'' (world_with 5) = (Response 400 body, world_with 5))
   \<and> dict_get PERSONAS ''pirate'' (persona_of ''simplified'') = persona_of ''simplified''
   \<and> ''pirate'' \<notin> set (map persona_value [technical, business, finance, simplified, comedian, poet])
   \<and> enhance_endpoint ''A short story.'' ''pirate'' ''u1'' ([''Once''], None) None (supabase_with 5)
       = (Inl (HTTPException 422 (JString ''validation error'')), supabase_with 5)"
  using persona_resolution[of "request_with ''A short story.'' ''pirate''" "''pirate''" "''u1''"
      "Returns JNull" "''d1''" "world_with 5" "''pirate''" "''A short story.''"
      "([''Once''], None)" None "supabase_with 5"]
  by (simp add: example_request PERSONAS_keys)

text \<open>
  Claim C9 as stated fails for the legacy variant: \<open>persona_enhance\<close> does not resolve
  the unknown persona \<open>pirate\<close> to \<open>simplified\<close>; it answers 400 and does nothing.
\<close>

theorem legacy_unknown_persona_counterexample:
  "persona_enhance (request_with ''A short story.'' ''pirate'') ''u1'' (Returns JNull) ''d1''
     (world_with 5)
   = (Response 400 [(''error'', JString
        (''Unknown persona. Valid: ['' @ CHR 0x27 # ''technical'' @ CHR 0x27 # '', ''
         @ CHR 0x27 # ''business'' @ CHR 0x27 # '', '' @ CHR 0x27 # ''finance'' @ CHR 0x27 # '', ''
         @ CHR 0x27 # ''simplified'' @ CHR 0x27 # '', '' @ CHR 0x27 # ''comedian'' @ CHR 0x27 # '', ''
         @ CHR 0x27 # ''poet'' @ CHR 0x27 # '']''))], world_with 5)"
  by (simp add: persona_enhance_def Let_def example_request strip_story PERSONAS_keys)

text \<open>Every persona the layered schema admits has its own prompt, so
  \<open>stream_enhance_text\<close> never falls back to \<open>simplified\<close> for a validated request.\<close>

lemma PersonaEnum_has_prompt: "map_of PERSONA_PROMPTS (persona_value p) \<noteq> None"
  by (cases p) (simp_all add: PERSONA_PROMPTS_def)

subsection \<open>Reservations in a row\<close>

lemma reserve_all_exact:
  "2 \<le> C \<Longrightarrow> users w uid = Some (C * int n + 1) \<Longrightarrow>
   fst (reserve_all uid C (Suc n) w) = replicate n True @ [False]
   \<and> users (snd (reserve_all uid C (Suc n) w)) uid = Some 1"
proof (induction n arbitrary: w)
  case 0
  then have "deduct_credits uid C w = (False, w)"
    by (simp add: deduct_credits_def)
  with 0 show ?case by simp
next
  case (Suc n)
  let ?w1 = "w\<lparr>users := (users w)(uid \<mapsto> C * int n + 1)\<rparr>"
  define b where "b = C * int (Suc n) + 1"
  have e: "b - C = C * int n + 1"
    unfolding b_def by (simp add: algebra_simps)
  have "0 \<le> C * int n"
    using Suc.prems(1) by simp
  then have nl: "\<not> b < C"
    using e by linarith
  have ub: "users w uid = Some b"
    using Suc.prems(2) b_def by simp
  have "deduct_credits uid C w = (True, w\<lparr>users := (users w)(uid \<mapsto> b - C)\<rparr>)"
    using ub nl by (simp add: deduct_credits_def)
  then have d: "deduct_credits uid C w = (True, ?w1)"
    unfolding e .
  have u: "users ?w1 uid = Some (C * int n + 1)" by simp
  from Suc.IH[OF Suc.prems(1) u] show ?case
    by (simp add: d split: prod.splits)
qed

text \<open>
  With cost 1 the balance \<open>C*(N-1)+1\<close> of the claim is \<open>N\<close>: then all \<open>N\<close> reservations
  succeed, also one after the other.
\<close>

lemma unit_cost_reservations:
  "fst (reserve_all ''u1'' 1 2 (world_with 2)) = [True, True]"
  by (simp add: numeral_2_eq_2 deduct_credits_def world_with_def)

text \<open>
  Claim C4 does not hold of the legacy \<open>deduct_credits\<close>, which reads the balance and
  then sends the decrement. Two reservations of cost 2 for one user against a balance of
  3: when both read before either writes, both pass the check \<open>credits < amount\<close>, both
  return \<open>True\<close>, and the balance ends at -1. One after the other, the same two calls
  give one success and one failure (lemma \<open>reserve_all_exact\<close>).
\<close>

theorem interleaved_reservations_both_succeed:
  "fst (run_schedule ''u1'' 2 [0, 1, 0, 1] ([NotStarted, NotStarted], world_with 3))
       = [Returned True, Returned True]
   \<and> users (snd (run_schedule ''u1'' 2 [0, 1, 0, 1] ([NotStarted, NotStarted], world_with 3))) ''u1''
       = Some (- 1)
   \<and> fst (reserve_all ''u1'' 2 2 (world_with 3)) = [True, False]"
  by (simp add: numeral_2_eq_2 deduct_credits_def world_with_def)

text \<open>The two steps of \<open>deduct_step\<close>, taken without interruption, are \<open>deduct_credits\<close>.\<close>

lemma deduct_credits_steps:
  "deduct_credits uid amount w =
     (case deduct_step uid amount NotStarted w of
        (Returned ok, w1) \<Rightarrow> (ok, w1)
      | (pc, w1) \<Rightarrow> (case deduct_step uid amount pc w1 of
                       (Returned ok, w2) \<Rightarrow> (ok, w2)
                     | (pc', w2) \<Rightarrow> (False, w2)))"
  by (cases "users w uid") (simp_all add: deduct_credits_def)

subsection \<open>Edges of the assembled graph\<close>

lemma valid_edges_of_sound:
  "valid_edges_of node_ids es = Returns ves \<Longrightarrow>
   list_all (\<lambda>e. field_in e ''source'' node_ids = Returns True
                \<and> field_in e ''target'' node_ids = Returns True) ves"
proof (induction es arbitrary: ves)
  case Nil
  then show ?case by simp
next
  case (Cons e es)
  show ?case
  proof (cases "field_in e ''source'' node_ids")
    case (Raises x)
    with Cons.prems show ?thesis by simp
  next
    case src: (Returns s)
    show ?thesis
    proof (cases s)
      case False
      with src Cons show ?thesis by simp
    next
      case True
      note s_true = this
      show ?thesis
      proof (cases "field_in e ''target'' node_ids")
        case (Raises x)
        with src s_true Cons.prems show ?thesis by simp
      next
        case tgt: (Returns t)
        show ?thesis
        proof (cases t)
          case False
          with src s_true tgt Cons show ?thesis by simp
        next
          case True
          show ?thesis
          proof (cases "valid_edges_of node_ids es")
            case (Raises x)
            with src s_true tgt True Cons.prems show ?thesis by simp
          next
            case (Returns vs)
            with src s_true tgt True Cons.prems have "ves = e # vs" by simp
            with src s_true tgt True Cons.IH[OF Returns] show ?thesis by simp
          qed
        qed
      qed
    qed
  qed
qed

lemma node_ids_of_assembled:
  "node_ids_of (JObject [(''nodes'', JArray (map (\<lambda>entity.
        JObject [(''id'', JString (ent_id entity)), (''label'', l entity), (''type'', t entity),
                 (''attributes'', a entity)]) ents)),
      (''edges'', es), (''summary'', sm), (''themes'', th)])
   = map ent_id ents"
  by (induction ents) simp_all

text \<open>
  On the main path of \<open>build_graph\<close> (the extractor found entities) every edge of a
  returned graph names, as source and as target, the id of a returned node; the edges
  that do not are left out.
\<close>

lemma edges_in_sound:
  "edges_in node_ids v = Returns ves \<Longrightarrow>
   list_all (\<lambda>e. field_in e ''source'' node_ids = Returns True
                \<and> field_in e ''target'' node_ids = Returns True) ves"
proof (induction node_ids v rule: edges_in.induct)
  case (1 node_ids edges)
  then show ?case by (simp add: valid_edges_of_sound)
qed auto

lemma assemble_graph_edge_integrity:
  assumes "assemble_graph raw_entities heuristic_themes llm_data = Returns g"
  shows "edge_integrity g"
proof -
  from assms obtain d where d: "llm_data = JObject d"
    by (cases llm_data) (simp_all add: assemble_graph_def)
  from assms d obtain ea where ea: "dict_get d ''entity_attributes'' (JObject []) = JObject ea"
    by (cases "dict_get d ''entity_attributes'' (JObject [])") (simp_all add: assemble_graph_def)
  let ?ve = "edges_in (map ent_id raw_entities) (dict_get d ''edges'' (JArray []))"
  let ?th = "themes_or (dict_get d ''themes'' JNull) heuristic_themes"
  from assms obtain ves where ves: "?ve = Returns ves"
    by (cases ?ve) (simp_all add: assemble_graph_def d ea Let_def)
  from assms ves obtain six where six: "first_six ?th = Returns six"
    by (cases "first_six ?th") (simp_all add: assemble_graph_def d ea Let_def)
  have g: "g = JObject
                  [(''nodes'', JArray (map (\<lambda>entity.
                        JObject [(''id'', JString (ent_id entity)),
                                 (''label'', JString (ent_label entity)),
                                 (''type'', JString (ent_type entity)),
                                 (''attributes'', dict_get ea (ent_id entity) (JObject []))])
                      raw_entities)),
                   (''edges'', JArray ves),
                   (''summary'', dict_get d ''summary'' (JString [])),
                   (''themes'', six)]"
    using assms by (simp add: assemble_graph_def d ea Let_def ves six)
  have ids: "node_ids_of g = map ent_id raw_entities"
    unfolding g by (rule node_ids_of_assembled)
  have es: "edges_of g = ves"
    unfolding g by simp
  show ?thesis
    using edges_in_sound[OF ves] by (simp add: edge_integrity_def ids es)
qed

lemma build_graph_edge_integrity:
  assumes "raw_entities \<noteq> []"
    and "fst (build_graph text_in raw_entities heuristic_themes reply db) = Returns g"
  shows "edge_integrity g"
proof (cases reply)
  case (CallFails e)
  with assms show ?thesis by (simp add: build_graph_def run_llm_def)
next
  case (Reply raw parsed)
  with assms obtain ld where "assemble_graph raw_entities heuristic_themes ld = Returns g"
    by (simp add: build_graph_def run_llm_def Let_def)
  then show ?thesis by (rule assemble_graph_edge_integrity)
qed

text \<open>
  Claim C8 at the fallback. The extractor finds no entity; the model's reply parses to a
  graph with the node \<open>alice\<close> and an edge from \<open>alice\<close> to \<open>bob\<close>. \<open>build_graph\<close> returns
  the parsed reply as it is, with the edge whose target is no node of the graph.
\<close>

theorem fallback_graph_dangling_edge:
  "fst (build_graph ''Alice met Bob.'' [] []
          (Reply ''...''
             (Some (JObject
                [(''nodes'', JArray [JObject [(''id'', JString ''alice''), (''label'', JString ''Alice''),
                                             (''type'', JString ''character''),
                                             (''attributes'', JObject [])]]),
                 (''edges'', JArray [JObject [(''source'', JString ''alice''),
                                             (''target'', JString ''bob''),
                                             (''label'', JString ''Friend'')]]),
                 (''summary'', JString ''Alice meets Bob.''),
                 (''themes'', JArray [JString ''Friendship''])])))
          (supabase_with 5))
   = Returns (JObject
                [(''nodes'', JArray [JObject [(''id'', JString ''alice''), (''label'', JString ''Alice''),
                                             (''type'', JString ''character''),
                                             (''attributes'', JObject [])]]),
                 (''edges'', JArray [JObject [(''source'', JString ''alice''),
                                             (''target'', JString ''bob''),
                                             (''label'', JString ''Friend'')]]),
                 (''summary'', JString ''Alice meets Bob.''),
                 (''themes'', JArray [JString ''Friendship''])])
   \<and> \<not> edge_integrity (JObject
                [(''nodes'', JArray [JObject [(''id'', JString ''alice''), (''label'', JString ''Alice''),
                                             (''type'', JString ''character''),
                                             (''attributes'', JObject [])]]),
                 (''edges'', JArray [JObject [(''source'', JString ''alice''),
                                             (''target'', JString ''bob''),
                                             (''label'', JString ''Friend'')]]),
                 (''summary'', JString ''Alice meets Bob.''),
                 (''themes'', JArray [JString ''Friendship''])])"
  by (simp add: build_graph_def full_llm_graph_def run_llm_def json_loads_def edge_integrity_def)

section \<open>Properties of the diff engine\<close>

subsection \<open>The block find_longest_match returns is a match\<close>

text \<open>
  \<open>is_match\<close>: the block \<open>(i, j, k)\<close> pairs equal elements, \<open>a[i+t] = b[j+t]\<close> for
  \<open>t < k\<close>. \<open>ends_match\<close>: \<open>v\<close> elements ending at \<open>a[i]\<close> and \<open>b[j]\<close> are pairwise equal.
  \<open>b2j_sound\<close>: every position \<open>b2j\<close> lists for an element holds that element.
\<close>

definition is_match :: "'a list \<Rightarrow> 'a list \<Rightarrow> nat \<times> nat \<times> nat \<Rightarrow> bool" where
  "is_match a b blk = (case blk of (i, j, k) \<Rightarrow> \<forall>t<k. a ! (i + t) = b ! (j + t))"

definition ends_match :: "'a list \<Rightarrow> 'a list \<Rightarrow> nat \<Rightarrow> nat \<Rightarrow> nat \<Rightarrow> bool" where
  "ends_match a b i j v = (v \<le> Suc i \<and> v \<le> Suc j \<and> (\<forall>t<v. a ! (i - t) = b ! (j - t)))"

definition b2j_sound :: "'a list \<Rightarrow> ('a \<rightharpoonup> nat list) \<Rightarrow> bool" where
  "b2j_sound b m = (\<forall>x js. m x = Some js \<longrightarrow> (\<forall>j\<in>set js. b ! j = x))"

lemma ends_match_one: "a ! i = b ! j \<Longrightarrow> ends_match a b i j (Suc 0)"
  by (simp add: ends_match_def)

lemma ends_match_Suc:
  assumes "ends_match a b i j v" and "a ! Suc i = b ! Suc j"
  shows "ends_match a b (Suc i) (Suc j) (Suc v)"
  unfolding ends_match_def
proof (intro conjI allI impI)
  fix t assume t: "t < Suc v"
  show "a ! (Suc i - t) = b ! (Suc j - t)"
  proof (cases t)
    case 0
    with assms(2) show ?thesis by simp
  next
    case (Suc t')
    with t assms(1) show ?thesis by (simp add: ends_match_def)
  qed
qed (use assms(1) in \<open>simp_all add: ends_match_def\<close>)

lemma ends_match_is_match:
  assumes "ends_match a b i j k"
  shows "is_match a b (Suc i - k, Suc j - k, k)"
  unfolding is_match_def
proof (clarsimp)
  fix t assume t: "t < k"
  have k: "k \<le> Suc i" "k \<le> Suc j" using assms by (simp_all add: ends_match_def)
  have "k - Suc t < k" using t by simp
  then have "a ! (i - (k - Suc t)) = b ! (j - (k - Suc t))"
    using assms by (simp add: ends_match_def)
  moreover have "i - (k - Suc t) = Suc i - k + t" using t k by simp
  moreover have "j - (k - Suc t) = Suc j - k + t" using t k by simp
  ultimately show "a ! (Suc i - k + t) = b ! (Suc j - k + t)" by simp
qed

text \<open>The length the inner loop computes at \<open>(i, j)\<close> from the previous row.\<close>

lemma prev_len_match:
  assumes prev: "\<forall>j' v. j2len j' = Some v \<longrightarrow> 0 < i \<and> ends_match a b (i - 1) j' v"
    and eq: "a ! i = b ! j"
  shows "ends_match a b i j
           ((case j of 0 \<Rightarrow> 0 | Suc j' \<Rightarrow> (case j2len j' of None \<Rightarrow> 0 | Some v \<Rightarrow> v)) + 1)"
proof (cases j)
  case 0
  with eq show ?thesis by (simp add: ends_match_one)
next
  case (Suc j')
  show ?thesis
  proof (cases "j2len j'")
    case None
    with Suc eq show ?thesis by (simp add: ends_match_one)
  next
    case (Some v)
    with prev have i: "0 < i" and m: "ends_match a b (i - 1) j' v" by blast+
    from i obtain i' where i': "i = Suc i'" by (cases i) auto
    from m i' have "ends_match a b i' j' v" by simp
    then have "ends_match a b (Suc i') (Suc j') (Suc v)"
      using eq Suc i' by (intro ends_match_Suc) simp_all
    with Suc Some i' show ?thesis by simp
  qed
qed

lemma flm_row_match:
  assumes prev: "\<forall>j' v. j2len j' = Some v \<longrightarrow> 0 < i \<and> ends_match a b (i - 1) j' v"
    and js: "\<forall>j\<in>set js. b ! j = a ! i"
  shows "is_match a b best \<Longrightarrow> \<forall>j v. nm j = Some v \<longrightarrow> ends_match a b i j v \<Longrightarrow>
     is_match a b (snd (flm_row blo bhi i j2len js (nm, best)))
     \<and> (\<forall>j v. fst (flm_row blo bhi i j2len js (nm, best)) j = Some v \<longrightarrow> ends_match a b i j v)"
  using js
proof (induction js arbitrary: nm best)
  case Nil
  then show ?case by simp
next
  case (Cons j js)
  obtain bi bj bs where best: "best = (bi, bj, bs)" by (cases best) auto
  from Cons.prems(3) have js': "\<forall>j\<in>set js. b ! j = a ! i" and eq: "a ! i = b ! j" by simp_all
  show ?case
  proof (cases "j < blo")
    case True
    with Cons.IH[OF Cons.prems(1,2) js'] best show ?thesis by simp
  next
    case False
    note nlt = this
    show ?thesis
    proof (cases "j \<ge> bhi")
      case True
      with Cons.prems best nlt show ?thesis by simp
    next
      case False
      define k where "k = (case j of 0 \<Rightarrow> 0 | Suc j' \<Rightarrow> (case j2len j' of None \<Rightarrow> 0 | Some v \<Rightarrow> v)) + 1"
      have km: "ends_match a b i j k"
        unfolding k_def by (rule prev_len_match[OF prev eq])
      let ?nm = "nm(j \<mapsto> k)"
      let ?best = "if k > bs then (Suc i - k, Suc j - k, k) else (bi, bj, bs)"
      have step: "flm_row blo bhi i j2len (j # js) (nm, best) = flm_row blo bhi i j2len js (?nm, ?best)"
        using best nlt False by (simp add: k_def Let_def)
      have b: "is_match a b ?best"
        using km Cons.prems(1) best by (simp add: ends_match_is_match)
      have n: "\<forall>j v. ?nm j = Some v \<longrightarrow> ends_match a b i j v"
        using km Cons.prems(2) by simp
      show ?thesis
        unfolding step using Cons.IH[OF b n js'] .
    qed
  qed
qed

lemma flm_rows_match:
  assumes sound: "b2j_sound b m"
  shows "is_match a b best \<Longrightarrow>
   \<forall>j' v. j2len j' = Some v \<longrightarrow> 0 < i0 \<and> ends_match a b (i0 - 1) j' v \<Longrightarrow>
   is_match a b (flm_rows a m blo bhi [i0..<ahi] j2len best)"
proof (induction "ahi - i0" arbitrary: i0 j2len best)
  case 0
  then show ?case by simp
next
  case (Suc n)
  then have lt: "i0 < ahi" by simp
  let ?js = "case m (a ! i0) of None \<Rightarrow> [] | Some js \<Rightarrow> js"
  let ?r = "flm_row blo bhi i0 j2len ?js (Map.empty, best)"
  have js: "\<forall>j\<in>set ?js. b ! j = a ! i0"
  proof (cases "m (a ! i0)")
    case None
    then show ?thesis by simp
  next
    case (Some l)
    with sound show ?thesis unfolding b2j_sound_def by auto
  qed
  have e: "\<forall>j v. Map.empty j = Some v \<longrightarrow> ends_match a b i0 j v" by simp
  have r: "is_match a b (snd ?r) \<and> (\<forall>j v. fst ?r j = Some v \<longrightarrow> ends_match a b i0 j v)"
    using flm_row_match[OF Suc.prems(2) js Suc.prems(1) e] .
  have n: "n = ahi - Suc i0" using Suc.hyps(2) by simp
  have j2: "\<forall>j' v. fst ?r j' = Some v \<longrightarrow> 0 < Suc i0 \<and> ends_match a b (Suc i0 - 1) j' v"
    using r by simp
  have "is_match a b (flm_rows a m blo bhi [Suc i0..<ahi] (fst ?r) (snd ?r))"
    using Suc.hyps(1)[OF n _ j2] r by simp
  then show ?case
    using lt by (simp add: upt_conv_Cons case_prod_beta)
qed

lemma extend_left_match:
  "is_match a b best \<Longrightarrow> is_match a b (extend_left p a b alo blo best)"
proof (induction p a b alo blo best rule: extend_left.induct)
  case (1 p a b alo blo besti bestj bestsize)
  show ?case
  proof (cases "besti > alo \<and> bestj > blo \<and> p (b ! (bestj - 1)) \<and> a ! (besti - 1) = b ! (bestj - 1)")
    case True
    have "is_match a b (besti - 1, bestj - 1, bestsize + 1)"
      unfolding is_match_def
    proof (clarsimp)
      fix t assume "t < Suc bestsize"
      show "a ! (besti - Suc 0 + t) = b ! (bestj - Suc 0 + t)"
      proof (cases t)
        case 0
        with True show ?thesis by simp
      next
        case (Suc t')
        with \<open>t < Suc bestsize\<close> True "1.prems" show ?thesis by (simp add: is_match_def)
      qed
    qed
    from "1.IH"[OF True this] True show ?thesis by (subst extend_left.simps) simp
  next
    case False
    then show ?thesis using "1.prems" by (subst extend_left.simps) auto
  qed
qed

lemma extend_right_match:
  "is_match a b best \<Longrightarrow> is_match a b (extend_right p a b ahi bhi best)"
proof (induction p a b ahi bhi best rule: extend_right.induct)
  case (1 p a b ahi bhi besti bestj bestsize)
  show ?case
  proof (cases "besti + bestsize < ahi \<and> bestj + bestsize < bhi \<and> p (b ! (bestj + bestsize))
         \<and> a ! (besti + bestsize) = b ! (bestj + bestsize)")
    case True
    have "is_match a b (besti, bestj, bestsize + 1)"
      using True "1.prems" by (auto simp: is_match_def less_Suc_eq)
    from "1.IH"[OF True this] True show ?thesis by (subst extend_right.simps) simp
  next
    case False
    then show ?thesis using "1.prems" by (subst extend_right.simps) auto
  qed
qed

lemma find_longest_match_is_match:
  assumes "b2j_sound (seq_b m) (b2j m)"
  shows "is_match (seq_a m) (seq_b m) (find_longest_match m alo ahi blo bhi)"
proof -
  have "is_match (seq_a m) (seq_b m) (alo, blo, 0)" by (simp add: is_match_def)
  then have "is_match (seq_a m) (seq_b m)
      (flm_rows (seq_a m) (b2j m) blo bhi [alo..<ahi] Map.empty (alo, blo, 0))"
    by (rule flm_rows_match[OF assms]) simp
  then show ?thesis
    unfolding find_longest_match_def Let_def
    by (intro extend_right_match extend_left_match)
qed

lemma positions_sound: "j \<in> set (positions i x b) \<Longrightarrow> i \<le> j \<and> j < i + length b \<and> b ! (j - i) = x"
proof (induction b arbitrary: i)
  case Nil
  then show ?case by simp
next
  case (Cons y ys)
  show ?case
  proof (cases "j = i \<and> y = x")
    case True
    then show ?thesis by simp
  next
    case False
    with Cons.prems have "j \<in> set (positions (Suc i) x ys)" by (auto split: if_splits)
    from Cons.IH[OF this] show ?thesis by (simp add: Suc_diff_le)
  qed
qed

lemma new_matcher_b2j_sound: "b2j_sound b (b2j (new_matcher None a b autojunk))"
  unfolding b2j_sound_def
proof (intro allI impI ballI)
  fix x js j
  assume m: "b2j (new_matcher None a b autojunk) x = Some js" and j: "j \<in> set js"
  have "js = positions 0 x b"
    using m by (auto simp: new_matcher_def chain_b_def Let_def chain_b_loop_positions
        split: if_splits option.splits)
  with j positions_sound[of j 0 x b] show "b ! j = x" by simp
qed

subsection \<open>The blocks of the work list are apart from each other\<close>

text \<open>
  A window \<open>(alo, ahi, blo, bhi)\<close> lies before another when it ends, in \<open>a\<close> and in \<open>b\<close>,
  where the other starts or earlier; \<open>apart\<close>: one of the two lies before the other.
  \<open>window_of\<close> is the window a block covers. \<open>good_block\<close>: a block of positive size
  inside the two sequences that is a match.
\<close>

definition apart :: "nat \<times> nat \<times> nat \<times> nat \<Rightarrow> nat \<times> nat \<times> nat \<times> nat \<Rightarrow> bool" where
  "apart r1 r2 =
     (case r1 of (alo1, ahi1, blo1, bhi1) \<Rightarrow> case r2 of (alo2, ahi2, blo2, bhi2) \<Rightarrow>
        (ahi1 \<le> alo2 \<and> bhi1 \<le> blo2) \<or> (ahi2 \<le> alo1 \<and> bhi2 \<le> blo1))"

definition window_of :: "nat \<times> nat \<times> nat \<Rightarrow> nat \<times> nat \<times> nat \<times> nat" where
  "window_of blk = (case blk of (i, j, k) \<Rightarrow> (i, i + k, j, j + k))"

definition good_block :: "'a list \<Rightarrow> 'a list \<Rightarrow> nat \<times> nat \<times> nat \<Rightarrow> bool" where
  "good_block a b blk =
     (case blk of (i, j, k) \<Rightarrow>
        0 < k \<and> i + k \<le> length a \<and> j + k \<le> length b \<and> is_match a b (i, j, k))"

definition loop_inv :: "'a list \<Rightarrow> 'a list \<Rightarrow> (nat \<times> nat \<times> nat \<times> nat) list
    \<Rightarrow> (nat \<times> nat \<times> nat) list \<Rightarrow> bool" where
  "loop_inv a b queue blocks =
     (sorted_wrt apart (queue @ map window_of blocks)
      \<and> (\<forall>(alo, ahi, blo, bhi)\<in>set queue. ahi \<le> length a \<and> bhi \<le> length b)
      \<and> (\<forall>blk\<in>set blocks. good_block a b blk))"

lemma apart_sym: "apart r1 r2 \<Longrightarrow> apart r2 r1"
  by (auto simp: apart_def)

lemma apart_inner:
  assumes "apart (alo, ahi, blo, bhi) r"
    and "alo \<le> alo'" and "ahi' \<le> ahi" and "blo \<le> blo'" and "bhi' \<le> bhi"
  shows "apart (alo', ahi', blo', bhi') r" and "apart r (alo', ahi', blo', bhi')"
  using assms by (auto simp: apart_def)

lemma loop_inv_step:
  assumes inv: "loop_inv a b ((alo, ahi, blo, bhi) # queue) blocks"
    and ok: "best_ok alo ahi blo bhi (i, j, k)"
    and m: "is_match a b (i, j, k)"
    and k: "k \<noteq> 0"
  shows "loop_inv a b
           ((if i + k < ahi \<and> j + k < bhi then [(i + k, ahi, j + k, bhi)] else [])
            @ (if alo < i \<and> blo < j then [(alo, i, blo, j)] else []) @ queue)
           (blocks @ [(i, j, k)])"
proof -
  let ?rest = "queue @ map window_of blocks"
  from ok k have b: "alo \<le> i" "blo \<le> j" "i + k \<le> ahi" "j + k \<le> bhi"
    by (auto simp: best_ok_def max_def split: if_splits)
  from inv have rest: "sorted_wrt apart ?rest"
    and head: "\<forall>y\<in>set ?rest. apart (alo, ahi, blo, bhi) y"
    and hi: "ahi \<le> length a" "bhi \<le> length b"
    and qs: "\<forall>(alo, ahi, blo, bhi)\<in>set queue. ahi \<le> length a \<and> bhi \<le> length b"
    and bs: "\<forall>blk\<in>set blocks. good_block a b blk"
    by (simp_all add: loop_inv_def)
  have L: "\<forall>y\<in>set ?rest. apart (alo, i, blo, j) y \<and> apart y (alo, i, blo, j)"
    using head b apart_inner[of alo ahi blo bhi _ alo i blo j] by auto
  have R: "\<forall>y\<in>set ?rest. apart (i + k, ahi, j + k, bhi) y \<and> apart y (i + k, ahi, j + k, bhi)"
    using head b apart_inner[of alo ahi blo bhi _ "i + k" ahi "j + k" bhi] by auto
  have B: "\<forall>y\<in>set ?rest. apart (i, i + k, j, j + k) y \<and> apart y (i, i + k, j, j + k)"
    using head b apart_inner[of alo ahi blo bhi _ i "i + k" j "j + k"] by auto
  have among: "apart (i + k, ahi, j + k, bhi) (alo, i, blo, j)"
    "apart (i + k, ahi, j + k, bhi) (i, i + k, j, j + k)"
    "apart (alo, i, blo, j) (i, i + k, j, j + k)"
    by (simp_all add: apart_def)
  let ?news = "(if i + k < ahi \<and> j + k < bhi then [(i + k, ahi, j + k, bhi)] else [])
               @ (if alo < i \<and> blo < j then [(alo, i, blo, j)] else [])"
  have w: "window_of (i, j, k) = (i, i + k, j, j + k)"
    by (simp add: window_of_def)
  have n1: "\<forall>x\<in>set ?news. \<forall>y\<in>set ?rest. apart x y"
    using L R by auto
  have n2: "sorted_wrt apart ?news"
    using among(1) by simp
  have n3: "\<forall>x\<in>set ?news. apart x (window_of (i, j, k))"
    unfolding w using among(2,3) by auto
  have n4: "\<forall>y\<in>set ?rest. apart y (window_of (i, j, k))"
    unfolding w using B by simp
  have eq: "(?news @ queue) @ map window_of (blocks @ [(i, j, k)])
            = ?news @ (?rest @ [window_of (i, j, k)])"
    by simp
  have "sorted_wrt apart (?news @ (?rest @ [window_of (i, j, k)]))"
    unfolding sorted_wrt_append[of apart ?news] sorted_wrt_append[of apart ?rest]
    using n1 n2 n3 n4 rest by simp
  then have s: "sorted_wrt apart
     (((if i + k < ahi \<and> j + k < bhi then [(i + k, ahi, j + k, bhi)] else [])
       @ (if alo < i \<and> blo < j then [(alo, i, blo, j)] else []) @ queue)
      @ map window_of (blocks @ [(i, j, k)]))"
    using eq by simp
  have q: "\<forall>(alo, ahi, blo, bhi)\<in>set
     ((if i + k < ahi \<and> j + k < bhi then [(i + k, ahi, j + k, bhi)] else [])
       @ (if alo < i \<and> blo < j then [(alo, i, blo, j)] else []) @ queue).
        ahi \<le> length a \<and> bhi \<le> length b"
    using qs hi b by auto
  have g: "\<forall>blk\<in>set (blocks @ [(i, j, k)]). good_block a b blk"
    using bs m k b hi by (auto simp: good_block_def)
  show ?thesis
    unfolding loop_inv_def using s q g by blast
qed

lemma loop_inv_skip:
  "loop_inv a b (r # queue) blocks \<Longrightarrow> loop_inv a b queue blocks"
  by (auto simp: loop_inv_def)

lemma matching_loop_inv:
  "b2j_sound (seq_b m) (b2j m) \<Longrightarrow> loop_inv (seq_a m) (seq_b m) queue blocks \<Longrightarrow>
   loop_inv (seq_a m) (seq_b m) [] (matching_loop m queue blocks)"
proof (induction m queue blocks rule: matching_loop.induct)
  case (1 m blocks)
  then show ?case by simp
next
  case (2 m alo ahi blo bhi queue blocks)
  obtain i j k where f: "find_longest_match m alo ahi blo bhi = (i, j, k)"
    by (cases "find_longest_match m alo ahi blo bhi") auto
  have ok: "best_ok alo ahi blo bhi (i, j, k)"
    using find_longest_match_bounds[of alo ahi blo bhi m] f by simp
  have mt: "is_match (seq_a m) (seq_b m) (i, j, k)"
    using find_longest_match_is_match[OF "2.prems"(1), of alo ahi blo bhi] f by simp
  show ?case
  proof (cases "k = 0")
    case True
    have "loop_inv (seq_a m) (seq_b m) queue blocks"
      using "2.prems"(2) by (rule loop_inv_skip)
    moreover have "\<not> k \<noteq> 0" using True by simp
    ultimately have "loop_inv (seq_a m) (seq_b m) [] (matching_loop m queue blocks)"
      using "2.IH"(2)[OF f[symmetric] refl _ "2.prems"(1)] by blast
    with True f show ?thesis
      by simp
  next
    case False
    have "loop_inv (seq_a m) (seq_b m)
           ((if i + k < ahi \<and> j + k < bhi then [(i + k, ahi, j + k, bhi)] else [])
            @ (if alo < i \<and> blo < j then [(alo, i, blo, j)] else []) @ queue)
           (blocks @ [(i, j, k)])"
      using "2.prems"(2) ok mt False by (rule loop_inv_step)
    from "2.IH"(1)[OF f[symmetric] refl False "2.prems"(1) this] False f show ?thesis
      by simp
  qed
qed

subsection \<open>Sorting puts the blocks in a chain\<close>

text \<open>
  \<open>chain x y\<close>: block \<open>y\<close> starts, in \<open>a\<close> and in \<open>b\<close>, where block \<open>x\<close> ends or later.
\<close>

definition chain :: "nat \<times> nat \<times> nat \<Rightarrow> nat \<times> nat \<times> nat \<Rightarrow> bool" where
  "chain x y = (case x of (i, j, k) \<Rightarrow> case y of (i', j', k') \<Rightarrow> i + k \<le> i' \<and> j + k \<le> j')"

lemma sorted_wrt_pairwise:
  assumes "\<And>x y. P x y \<Longrightarrow> P y x"
  shows "sorted_wrt P xs \<Longrightarrow> x \<in> set xs \<Longrightarrow> y \<in> set xs \<Longrightarrow> x \<noteq> y \<Longrightarrow> P x y"
  by (induction xs) (auto intro: assms)

lemma sorted_wrt_distinct:
  "sorted_wrt P xs \<Longrightarrow> \<forall>x\<in>set xs. \<not> P x x \<Longrightarrow> distinct xs"
  by (induction xs) auto

lemma apart_chain:
  assumes "apart (window_of (i, j, k)) (window_of (i', j', k'))"
    and "(i, j, k) \<le> (i', j', k')" and "0 < k'"
  shows "chain (i, j, k) (i', j', k')"
  using assms by (auto simp: apart_def window_of_def chain_def)

lemma sort_blocks_chain:
  assumes s: "sorted_wrt apart (map window_of B)" and g: "\<forall>blk\<in>set B. good_block a b blk"
  shows "sorted_wrt chain (sort B)"
proof -
  have sw: "sorted_wrt (\<lambda>x y. apart (window_of x) (window_of y)) B"
    using s by (simp add: sorted_wrt_map)
  have pos: "\<forall>x\<in>set B. \<not> apart (window_of x) (window_of x)"
    using g by (auto simp: good_block_def apart_def window_of_def)
  have d: "distinct B" using sw pos by (rule sorted_wrt_distinct)
  have pw: "apart (window_of x) (window_of y)" if "x \<in> set B" "y \<in> set B" "x \<noteq> y" for x y
    using sorted_wrt_pairwise[of "\<lambda>x y. apart (window_of x) (window_of y)" B x y] sw apart_sym that
    by blast
  show ?thesis
    unfolding sorted_wrt_iff_nth_less
  proof (intro allI impI)
    fix p q assume pq: "p < q" "q < length (sort B)"
    let ?x = "sort B ! p" and ?y = "sort B ! q"
    have le: "?x \<le> ?y"
      using sorted_sort[of B] pq by (simp add: sorted_iff_nth_mono)
    have "distinct (sort B)" using d by simp
    then have ne: "?x \<noteq> ?y" using pq by (simp add: nth_eq_iff_index_eq)
    have mem: "?x \<in> set B" "?y \<in> set B"
      using pq nth_mem[of p "sort B"] nth_mem[of q "sort B"] by simp_all
    obtain i j k where x: "?x = (i, j, k)" by (cases ?x) auto
    obtain i' j' k' where y: "?y = (i', j', k')" by (cases ?y) auto
    have k': "0 < k'" using g mem(2) y by (auto simp: good_block_def)
    have "apart (window_of ?x) (window_of ?y)" using pw[OF mem ne] .
    then show "chain ?x ?y"
      using le k' unfolding x y by (rule apart_chain)
  qed
qed

subsection \<open>The blocks get_matching_blocks returns\<close>

text \<open>
  \<open>blocks_ok a b i j N\<close>: read from \<open>(i, j)\<close> on, the blocks of \<open>N\<close> are matches inside
  the two sequences and each starts where the one before it ends or later.
  \<open>blocks_sep st i j N\<close>: the blocks have positive size and, from the second on (from the
  first on when \<open>st\<close> holds), a block does not start in both sequences where the one before
  it ends.
\<close>

fun blocks_ok :: "'a list \<Rightarrow> 'a list \<Rightarrow> nat \<Rightarrow> nat \<Rightarrow> (nat \<times> nat \<times> nat) list \<Rightarrow> bool" where
  "blocks_ok a b i j [] = (i \<le> length a \<and> j \<le> length b)"
| "blocks_ok a b i j ((ai, bj, sz) # rest) =
     (i \<le> ai \<and> j \<le> bj \<and> ai + sz \<le> length a \<and> bj + sz \<le> length b \<and> is_match a b (ai, bj, sz)
      \<and> blocks_ok a b (ai + sz) (bj + sz) rest)"

fun blocks_sep :: "bool \<Rightarrow> nat \<Rightarrow> nat \<Rightarrow> (nat \<times> nat \<times> nat) list \<Rightarrow> bool" where
  "blocks_sep st i j [] = True"
| "blocks_sep st i j ((ai, bj, sz) # rest) =
     (0 < sz \<and> (st \<longrightarrow> i < ai \<or> j < bj) \<and> blocks_sep True (ai + sz) (bj + sz) rest)"

lemma is_match_merge:
  assumes "is_match a b (i, j, k1)" and "is_match a b (i + k1, j + k1, k2)"
  shows "is_match a b (i, j, k1 + k2)"
  unfolding is_match_def
proof (clarsimp)
  fix t assume t: "t < k1 + k2"
  show "a ! (i + t) = b ! (j + t)"
  proof (cases "t < k1")
    case True
    with assms(1) show ?thesis by (simp add: is_match_def)
  next
    case False
    then have "t - k1 < k2" using t by simp
    with assms(2) have "a ! (i + k1 + (t - k1)) = b ! (j + k1 + (t - k1))"
      by (simp add: is_match_def)
    with False show ?thesis by simp
  qed
qed

lemma collapse_ok:
  "is_match a b (i1, j1, k1) \<Longrightarrow> i0 \<le> i1 \<Longrightarrow> j0 \<le> j1 \<Longrightarrow>
   i1 + k1 \<le> length a \<Longrightarrow> j1 + k1 \<le> length b \<Longrightarrow>
   \<forall>x\<in>set rest. chain (i1, j1, k1) x \<Longrightarrow> sorted_wrt chain rest \<Longrightarrow>
   \<forall>x\<in>set rest. good_block a b x \<Longrightarrow>
   blocks_ok a b i0 j0 (collapse (i1, j1, k1) rest)"
proof (induction rest arbitrary: i0 j0 i1 j1 k1)
  case Nil
  then show ?case by simp
next
  case (Cons x rest)
  obtain i2 j2 k2 where x: "x = (i2, j2, k2)" by (cases x) auto
  have ch: "i1 + k1 \<le> i2" "j1 + k1 \<le> j2"
    using Cons.prems(6) x by (simp_all add: chain_def)
  have gx: "is_match a b (i2, j2, k2)" "i2 + k2 \<le> length a" "j2 + k2 \<le> length b"
    using Cons.prems(8) x by (simp_all add: good_block_def)
  have rest: "\<forall>y\<in>set rest. chain (i2, j2, k2) y" "sorted_wrt chain rest"
    "\<forall>y\<in>set rest. good_block a b y"
    using Cons.prems(7,8) x by simp_all
  show ?case
  proof (cases "i1 + k1 = i2 \<and> j1 + k1 = j2")
    case True
    have m: "is_match a b (i1, j1, k1 + k2)"
      using Cons.prems(1) gx(1) True by (intro is_match_merge) simp_all
    have c: "\<forall>y\<in>set rest. chain (i1, j1, k1 + k2) y"
      using rest(1) True by (auto simp: chain_def)
    have "blocks_ok a b i0 j0 (collapse (i1, j1, k1 + k2) rest)"
      using m Cons.prems(2,3) _ _ c rest(2,3)
    proof (rule Cons.IH)
      show "i1 + (k1 + k2) \<le> length a" using gx(2) True by simp
      show "j1 + (k1 + k2) \<le> length b" using gx(3) True by simp
    qed
    with True x show ?thesis by simp
  next
    case False
    show ?thesis
    proof (cases "k1 = 0")
      case True
      have "blocks_ok a b i0 j0 (collapse (i2, j2, k2) rest)"
        using gx(1) _ _ gx(2,3) rest
      proof (rule Cons.IH)
        show "i0 \<le> i2" using Cons.prems(2) ch by simp
        show "j0 \<le> j2" using Cons.prems(3) ch by simp
      qed
      with True False x show ?thesis by auto
    next
      case nz: False
      have "blocks_ok a b (i1 + k1) (j1 + k1) (collapse (i2, j2, k2) rest)"
        using gx(1) ch gx(2,3) rest by (rule Cons.IH)
      with nz False x Cons.prems(1-5) show ?thesis by auto
    qed
  qed
qed

lemma collapse_sep:
  "\<forall>x\<in>set rest. good_block a b x \<Longrightarrow> \<forall>x\<in>set rest. chain (i1, j1, k1) x \<Longrightarrow>
   sorted_wrt chain rest \<Longrightarrow> (st \<longrightarrow> 0 < k1 \<and> (i0 < i1 \<or> j0 < j1)) \<Longrightarrow>
   blocks_sep st i0 j0 (collapse (i1, j1, k1) rest)"
proof (induction rest arbitrary: st i0 j0 i1 j1 k1)
  case Nil
  then show ?case by auto
next
  case (Cons x rest)
  obtain i2 j2 k2 where x: "x = (i2, j2, k2)" by (cases x) auto
  have ch: "i1 + k1 \<le> i2" "j1 + k1 \<le> j2"
    using Cons.prems(2) x by (simp_all add: chain_def)
  have k2: "0 < k2" using Cons.prems(1) x by (simp add: good_block_def)
  have rest: "\<forall>y\<in>set rest. good_block a b y" "\<forall>y\<in>set rest. chain (i2, j2, k2) y"
    "sorted_wrt chain rest"
    using Cons.prems(1,3) x by simp_all
  show ?case
  proof (cases "i1 + k1 = i2 \<and> j1 + k1 = j2")
    case True
    have c: "\<forall>y\<in>set rest. chain (i1, j1, k1 + k2) y"
      using rest(2) True by (auto simp: chain_def)
    have "blocks_sep st i0 j0 (collapse (i1, j1, k1 + k2) rest)"
      using rest(1) c rest(3)
    proof (rule Cons.IH)
      show "st \<longrightarrow> 0 < k1 + k2 \<and> (i0 < i1 \<or> j0 < j1)" using Cons.prems(4) by simp
    qed
    with True x show ?thesis by simp
  next
    case False
    show ?thesis
    proof (cases "k1 = 0")
      case True
      have "blocks_sep st i0 j0 (collapse (i2, j2, k2) rest)"
        using rest
      proof (rule Cons.IH)
        show "st \<longrightarrow> 0 < k2 \<and> (i0 < i2 \<or> j0 < j2)" using Cons.prems(4) True by simp
      qed
      with True False x show ?thesis by auto
    next
      case nz: False
      have "blocks_sep True (i1 + k1) (j1 + k1) (collapse (i2, j2, k2) rest)"
        using rest
      proof (rule Cons.IH)
        show "True \<longrightarrow> 0 < k2 \<and> (i1 + k1 < i2 \<or> j1 + k1 < j2)"
          using k2 ch False by auto
      qed
      with nz False x Cons.prems(4) show ?thesis by auto
    qed
  qed
qed

text \<open>The blocks before the closing \<open>(la, lb, 0)\<close>, for a matcher whose \<open>b2j\<close> is sound.\<close>

lemma collapsed_blocks:
  assumes "b2j_sound (seq_b m) (b2j m)"
  shows "blocks_ok (seq_a m) (seq_b m) 0 0
           (collapse (0, 0, 0) (sort (matching_loop m [(0, length (seq_a m), 0, length (seq_b m))] [])))"
    and "blocks_sep False 0 0
           (collapse (0, 0, 0) (sort (matching_loop m [(0, length (seq_a m), 0, length (seq_b m))] [])))"
proof -
  let ?a = "seq_a m" and ?b = "seq_b m"
  let ?B = "matching_loop m [(0, length ?a, 0, length ?b)] []"
  have "loop_inv ?a ?b [(0, length ?a, 0, length ?b)] []"
    by (simp add: loop_inv_def)
  with assms have "loop_inv ?a ?b [] ?B" by (rule matching_loop_inv)
  then have s: "sorted_wrt apart (map window_of ?B)" and g: "\<forall>blk\<in>set ?B. good_block ?a ?b blk"
    by (simp_all add: loop_inv_def)
  have c: "sorted_wrt chain (sort ?B)" using s g by (rule sort_blocks_chain)
  have g': "\<forall>x\<in>set (sort ?B). good_block ?a ?b x" using g by simp
  have c0: "\<forall>x\<in>set (sort ?B). chain (0, 0, 0) x" by (auto simp: chain_def)
  have m0: "is_match ?a ?b (0, 0, 0)" by (simp add: is_match_def)
  show "blocks_ok ?a ?b 0 0 (collapse (0, 0, 0) (sort ?B))"
    using m0 _ _ _ _ c0 c g' by (rule collapse_ok) simp_all
  show "blocks_sep False 0 0 (collapse (0, 0, 0) (sort ?B))"
    using g' c0 c by (rule collapse_sep) simp
qed

subsection \<open>Slices and joins\<close>

lemma slice_append:
  "i \<le> k \<Longrightarrow> k \<le> n \<Longrightarrow> slice xs i k @ slice xs k n = slice xs i n"
proof -
  assume le: "i \<le> k" "k \<le> n"
  have "take ((k - i) + (n - k)) (drop i xs)
          = take (k - i) (drop i xs) @ take (n - k) (drop (k - i) (drop i xs))"
    by (rule take_add)
  moreover have "(k - i) + (n - k) = n - i" using le by simp
  moreover have "drop (k - i) (drop i xs) = drop k xs" using le by simp
  ultimately show ?thesis by (simp add: slice_def)
qed

lemma slice_empty: "slice xs i i = []"
  by (simp add: slice_def)

lemma slice_all: "slice xs 0 (length xs) = xs"
  by (simp add: slice_def)

lemma slice_nonempty: "i < k \<Longrightarrow> k \<le> length xs \<Longrightarrow> slice xs i k \<noteq> []"
  by (simp add: slice_def)

lemma slice_subset: "set (slice xs i k) \<subseteq> set xs"
  unfolding slice_def using set_take_subset set_drop_subset by fast

lemma slice_match:
  assumes "is_match a b (i, j, k)" and "i + k \<le> length a" and "j + k \<le> length b"
  shows "slice a i (i + k) = slice b j (j + k)"
proof (rule nth_equalityI)
  show "length (slice a i (i + k)) = length (slice b j (j + k))"
    using assms(2,3) by (simp add: slice_def)
next
  fix t assume "t < length (slice a i (i + k))"
  then have t: "t < k" by (simp add: slice_def)
  with assms(1) have "a ! (i + t) = b ! (j + t)" by (simp add: is_match_def)
  with t assms(2,3) show "slice a i (i + k) ! t = slice b j (j + k) ! t"
    by (simp add: slice_def)
qed

lemma join_append:
  "xs \<noteq> [] \<Longrightarrow> ys \<noteq> [] \<Longrightarrow> join sep (xs @ ys) = join sep xs @ sep @ join sep ys"
proof (induction sep xs rule: join.induct)
  case (1 sep)
  then show ?case by simp
next
  case (2 sep w)
  then show ?case by (cases ys) simp_all
next
  case (3 sep w v ws)
  then show ?case by simp
qed

lemma join_concat:
  "\<forall>c\<in>set cs. c \<noteq> [] \<Longrightarrow> join sep (map (join sep) cs) = join sep (concat cs)"
proof (induction cs)
  case Nil
  show ?case by simp
next
  case (Cons c cs)
  show ?case
  proof (cases cs)
    case Nil
    then show ?thesis by simp
  next
    case (Cons d ds)
    have ne: "c \<noteq> []" "concat cs \<noteq> []" using Cons.prems Cons by simp_all
    have "join sep (map (join sep) (c # cs)) = join sep c @ sep @ join sep (map (join sep) cs)"
      using Cons by simp
    also have "\<dots> = join sep c @ sep @ join sep (concat cs)"
      using Cons.IH Cons.prems by simp
    also have "\<dots> = join sep (c @ concat cs)"
      using join_append[OF ne] by simp
    finally show ?thesis by simp
  qed
qed

subsection \<open>The segments of one opcode\<close>

text \<open>
  \<open>segs\<close>: what one turn of the loop of \<open>compute_diff\<close> appends to \<open>result\<close>.
  \<open>original_side\<close> and \<open>enhanced_side\<close>: the contents of the segments that are not
  \<open>added\<close>, and of those that are not \<open>removed\<close>, in order.
\<close>

definition segs :: "string list \<Rightarrow> string list \<Rightarrow> opcode \<Rightarrow> DiffChange list" where
  "segs ow ew op = diff_loop ow ew [op] []"

definition original_side :: "DiffChange list \<Rightarrow> string list" where
  "original_side D = map content (filter (\<lambda>d. type d \<noteq> Added) D)"

definition enhanced_side :: "DiffChange list \<Rightarrow> string list" where
  "enhanced_side D = map content (filter (\<lambda>d. type d \<noteq> Removed) D)"

lemma segs_simps:
  "segs ow ew (Equal, i1, i2, j1, j2) = [\<lparr>type = Unchanged, content = join '' '' (slice ow i1 i2)\<rparr>]"
  "segs ow ew (Replace, i1, i2, j1, j2) =
     [\<lparr>type = Removed, content = join '' '' (slice ow i1 i2)\<rparr>,
      \<lparr>type = Added, content = join '' '' (slice ew j1 j2)\<rparr>]"
  "segs ow ew (Delete, i1, i2, j1, j2) = [\<lparr>type = Removed, content = join '' '' (slice ow i1 i2)\<rparr>]"
  "segs ow ew (Insert, i1, i2, j1, j2) = [\<lparr>type = Added, content = join '' '' (slice ew j1 j2)\<rparr>]"
  by (simp_all add: segs_def)

lemma diff_loop_segs:
  "diff_loop ow ew ops r = r @ concat (map (segs ow ew) ops)"
proof (induction ops arbitrary: r)
  case Nil
  show ?case by simp
next
  case (Cons x ops)
  obtain t i1 i2 j1 j2 where x: "x = (t, i1, i2, j1, j2)" by (cases x) auto
  show ?case
    unfolding x by (cases t) (simp_all add: Cons.IH segs_simps)
qed

lemma side_append [simp]:
  "original_side (xs @ ys) = original_side xs @ original_side ys"
  "enhanced_side (xs @ ys) = enhanced_side xs @ enhanced_side ys"
  by (simp_all add: original_side_def enhanced_side_def)

lemma side_Nil [simp]: "original_side [] = []" "enhanced_side [] = []"
  by (simp_all add: original_side_def enhanced_side_def)

text \<open>The opcode for the gap before a block, as \<open>get_opcodes\<close> chooses it.\<close>

definition gap_ops :: "nat \<Rightarrow> nat \<Rightarrow> nat \<Rightarrow> nat \<Rightarrow> opcode list" where
  "gap_ops i j ai bj =
     (if i < ai \<and> j < bj then [(Replace, i, ai, j, bj)]
      else if i < ai then [(Delete, i, ai, j, bj)]
      else if j < bj then [(Insert, i, ai, j, bj)]
      else [])"

definition equal_ops :: "nat \<Rightarrow> nat \<Rightarrow> nat \<Rightarrow> opcode list" where
  "equal_ops ai bj sz = (if sz \<noteq> 0 then [(Equal, ai, ai + sz, bj, bj + sz)] else [])"

lemma opcodes_loop_Cons:
  "opcodes_loop i j ((ai, bj, sz) # rest) =
     gap_ops i j ai bj @ equal_ops ai bj sz @ opcodes_loop (ai + sz) (bj + sz) rest"
  by (simp add: gap_ops_def equal_ops_def)

lemma gap_original:
  "original_side (concat (map (segs a b) (gap_ops i j ai bj)))
     = (if i < ai then [join '' '' (slice a i ai)] else [])"
  by (simp add: gap_ops_def segs_simps original_side_def)

lemma gap_enhanced:
  "enhanced_side (concat (map (segs a b) (gap_ops i j ai bj)))
     = (if j < bj then [join '' '' (slice b j bj)] else [])"
  by (simp add: gap_ops_def segs_simps enhanced_side_def)

lemma equal_original:
  "original_side (concat (map (segs a b) (equal_ops ai bj sz)))
     = (if sz \<noteq> 0 then [join '' '' (slice a ai (ai + sz))] else [])"
  by (simp add: equal_ops_def segs_simps original_side_def)

lemma equal_enhanced:
  "enhanced_side (concat (map (segs a b) (equal_ops ai bj sz)))
     = (if sz \<noteq> 0 then [join '' '' (slice a ai (ai + sz))] else [])"
  by (simp add: equal_ops_def segs_simps enhanced_side_def)

subsection \<open>The segments cover the two word lists\<close>

lemma opcodes_original:
  "blocks_ok a b i j N \<Longrightarrow>
   \<exists>cs. original_side (concat (map (segs a b) (opcodes_loop i j (N @ [(length a, length b, 0)]))))
           = map (join '' '') cs
        \<and> (\<forall>c\<in>set cs. c \<noteq> []) \<and> concat cs = slice a i (length a)"
proof (induction N arbitrary: i j)
  case Nil
  then have le: "i \<le> length a" by simp
  let ?cs = "if i < length a then [slice a i (length a)] else []"
  have "original_side (concat (map (segs a b) (opcodes_loop i j ([] @ [(length a, length b, 0)]))))
          = map (join '' '') ?cs"
    by (simp add: opcodes_loop_Cons gap_original equal_ops_def del: opcodes_loop.simps(2))
  moreover have "\<forall>c\<in>set ?cs. c \<noteq> []" by (simp add: slice_nonempty)
  moreover have "concat ?cs = slice a i (length a)" using le by (auto simp: slice_def)
  ultimately show ?case by blast
next
  case (Cons x N)
  obtain ai bj sz where x: "x = (ai, bj, sz)" by (cases x) auto
  from Cons.prems x have le: "i \<le> ai" "ai + sz \<le> length a"
    and ok: "blocks_ok a b (ai + sz) (bj + sz) N" by simp_all
  from Cons.IH[OF ok] obtain cs where
    cs: "original_side (concat (map (segs a b)
            (opcodes_loop (ai + sz) (bj + sz) (N @ [(length a, length b, 0)])))) = map (join '' '') cs"
      "\<forall>c\<in>set cs. c \<noteq> []" "concat cs = slice a (ai + sz) (length a)"
    by blast
  let ?g = "if i < ai then [slice a i ai] else []"
  let ?e = "if sz \<noteq> 0 then [slice a ai (ai + sz)] else []"
  have "original_side (concat (map (segs a b) (opcodes_loop i j ((x # N) @ [(length a, length b, 0)]))))
          = map (join '' '') (?g @ ?e @ cs)"
    unfolding x by (simp add: opcodes_loop_Cons gap_original equal_original cs(1) del: opcodes_loop.simps(2))
  moreover have "\<forall>c\<in>set (?g @ ?e @ cs). c \<noteq> []"
    using cs(2) le by (auto simp: slice_def)
  moreover have "concat (?g @ ?e @ cs) = slice a i (length a)"
  proof -
    have "concat ?g = slice a i ai" using le(1) by (auto simp: slice_empty)
    moreover have "concat ?e = slice a ai (ai + sz)" by (auto simp: slice_empty)
    moreover have "slice a i ai @ slice a ai (ai + sz) @ slice a (ai + sz) (length a) = slice a i (length a)"
      using le by (simp add: slice_append)
    ultimately show ?thesis using cs(3) by simp
  qed
  ultimately show ?case by blast
qed

lemma opcodes_enhanced:
  "blocks_ok a b i j N \<Longrightarrow>
   \<exists>cs. enhanced_side (concat (map (segs a b) (opcodes_loop i j (N @ [(length a, length b, 0)]))))
           = map (join '' '') cs
        \<and> (\<forall>c\<in>set cs. c \<noteq> []) \<and> concat cs = slice b j (length b)"
proof (induction N arbitrary: i j)
  case Nil
  then have le: "j \<le> length b" by simp
  let ?cs = "if j < length b then [slice b j (length b)] else []"
  have "enhanced_side (concat (map (segs a b) (opcodes_loop i j ([] @ [(length a, length b, 0)]))))
          = map (join '' '') ?cs"
    by (simp add: opcodes_loop_Cons gap_enhanced equal_ops_def del: opcodes_loop.simps(2))
  moreover have "\<forall>c\<in>set ?cs. c \<noteq> []" by (simp add: slice_nonempty)
  moreover have "concat ?cs = slice b j (length b)" using le by (auto simp: slice_def)
  ultimately show ?case by blast
next
  case (Cons x N)
  obtain ai bj sz where x: "x = (ai, bj, sz)" by (cases x) auto
  from Cons.prems x have le: "j \<le> bj" "bj + sz \<le> length b" "ai + sz \<le> length a"
    and m: "is_match a b (ai, bj, sz)"
    and ok: "blocks_ok a b (ai + sz) (bj + sz) N" by simp_all
  have eq: "slice a ai (ai + sz) = slice b bj (bj + sz)"
    using m le(3,2) by (rule slice_match)
  from Cons.IH[OF ok] obtain cs where
    cs: "enhanced_side (concat (map (segs a b)
            (opcodes_loop (ai + sz) (bj + sz) (N @ [(length a, length b, 0)])))) = map (join '' '') cs"
      "\<forall>c\<in>set cs. c \<noteq> []" "concat cs = slice b (bj + sz) (length b)"
    by blast
  let ?g = "if j < bj then [slice b j bj] else []"
  let ?e = "if sz \<noteq> 0 then [slice b bj (bj + sz)] else []"
  have "enhanced_side (concat (map (segs a b) (opcodes_loop i j ((x # N) @ [(length a, length b, 0)]))))
          = map (join '' '') (?g @ ?e @ cs)"
    unfolding x
    by (simp add: opcodes_loop_Cons gap_enhanced equal_enhanced cs(1) eq del: opcodes_loop.simps(2))
  moreover have "\<forall>c\<in>set (?g @ ?e @ cs). c \<noteq> []"
    using cs(2) le by (auto simp: slice_def)
  moreover have "concat (?g @ ?e @ cs) = slice b j (length b)"
  proof -
    have "concat ?g = slice b j bj" using le(1) by (auto simp: slice_empty)
    moreover have "concat ?e = slice b bj (bj + sz)" by (auto simp: slice_empty)
    moreover have "slice b j bj @ slice b bj (bj + sz) @ slice b (bj + sz) (length b) = slice b j (length b)"
      using le by (simp add: slice_append)
    ultimately show ?thesis using cs(3) by simp
  qed
  ultimately show ?case by blast
qed

text \<open>The segments of \<open>compute_diff\<close>, through the opcodes of its matcher.\<close>

lemma compute_diff_opcodes:
  "compute_diff original enhanced =
     concat (map (segs (split original) (split enhanced))
       (opcodes_loop 0 0
         (collapse (0, 0, 0)
            (sort (matching_loop (new_matcher None (split original) (split enhanced) False)
                     [(0, length (split original), 0, length (split enhanced))] []))
          @ [(length (split original), length (split enhanced), 0)])))"
  by (simp add: compute_diff_def Let_def diff_loop_segs get_opcodes_def get_matching_blocks_def
      matcher_fields del: matching_loop.simps)

lemma diff_blocks:
  "blocks_ok (split original) (split enhanced) 0 0
     (collapse (0, 0, 0)
        (sort (matching_loop (new_matcher None (split original) (split enhanced) False)
                 [(0, length (split original), 0, length (split enhanced))] [])))"
  "blocks_sep False 0 0
     (collapse (0, 0, 0)
        (sort (matching_loop (new_matcher None (split original) (split enhanced) False)
                 [(0, length (split original), 0, length (split enhanced))] [])))"
proof -
  let ?m = "new_matcher None (split original) (split enhanced) False"
  have s: "b2j_sound (seq_b ?m) (b2j ?m)"
    using new_matcher_b2j_sound[of "split enhanced" "split original" False]
    by (simp add: matcher_fields)
  show "blocks_ok (split original) (split enhanced) 0 0
     (collapse (0, 0, 0)
        (sort (matching_loop ?m [(0, length (split original), 0, length (split enhanced))] [])))"
    using collapsed_blocks(1)[OF s] by (simp add: matcher_fields del: matching_loop.simps)
  show "blocks_sep False 0 0
     (collapse (0, 0, 0)
        (sort (matching_loop ?m [(0, length (split original), 0, length (split enhanced))] [])))"
    using collapsed_blocks(2)[OF s] by (simp add: matcher_fields del: matching_loop.simps)
qed

lemma diff_original_side:
  "\<exists>cs. original_side (compute_diff original enhanced) = map (join '' '') cs
        \<and> (\<forall>c\<in>set cs. c \<noteq> []) \<and> concat cs = split original"
  using opcodes_original[OF diff_blocks(1), of original enhanced]
  by (simp add: compute_diff_opcodes slice_all del: matching_loop.simps)

lemma diff_enhanced_side:
  "\<exists>cs. enhanced_side (compute_diff original enhanced) = map (join '' '') cs
        \<and> (\<forall>c\<in>set cs. c \<noteq> []) \<and> concat cs = split enhanced"
  using opcodes_enhanced[OF diff_blocks(1), of original enhanced]
  by (simp add: compute_diff_opcodes slice_all del: matching_loop.simps)

subsection \<open>Removed and added segments do not alternate\<close>

text \<open>
  \<open>follows s t\<close>: a segment of type \<open>t\<close> may come directly after a segment of type \<open>s\<close>.
  After \<open>unchanged\<close> comes a change, after \<open>removed\<close> comes \<open>added\<close> or \<open>unchanged\<close>,
  after \<open>added\<close> comes \<open>unchanged\<close> only. \<open>no_interleave\<close>: every two neighbours of a
  segment list are in that relation, so between two \<open>unchanged\<close> segments there is at most
  one \<open>removed\<close> and at most one \<open>added\<close> segment, the removed one first.
\<close>

fun follows :: "change_type \<Rightarrow> change_type \<Rightarrow> bool" where
  "follows Unchanged Removed = True"
| "follows Unchanged Added = True"
| "follows Removed Added = True"
| "follows Removed Unchanged = True"
| "follows Added Unchanged = True"
| "follows Unchanged Unchanged = False"
| "follows Removed Removed = False"
| "follows Added Added = False"
| "follows Added Removed = False"

fun no_interleave :: "DiffChange list \<Rightarrow> bool" where
  "no_interleave [] = True"
| "no_interleave [x] = True"
| "no_interleave (x # y # r) = (follows (type x) (type y) \<and> no_interleave (y # r))"

definition starts_changed :: "DiffChange list \<Rightarrow> bool" where
  "starts_changed D = (case D of [] \<Rightarrow> True | d # r \<Rightarrow> type d \<noteq> Unchanged)"

lemma follows_Unchanged: "follows Unchanged t = (t \<noteq> Unchanged)"
  by (cases t) simp_all

lemma no_interleave_Unchanged:
  "no_interleave (\<lparr>type = Unchanged, content = c\<rparr> # D) = (starts_changed D \<and> no_interleave D)"
  by (cases D) (simp_all add: starts_changed_def follows_Unchanged)

lemma gap_no_interleave:
  "no_interleave (concat (map (segs a b) (gap_ops i j ai bj)))"
  "starts_changed (concat (map (segs a b) (gap_ops i j ai bj)))"
  by (simp_all add: gap_ops_def segs_simps starts_changed_def)

lemma block_no_interleave:
  assumes "no_interleave D" and "starts_changed D"
  shows "no_interleave (concat (map (segs a b) (gap_ops i j ai bj))
           @ \<lparr>type = Unchanged, content = c\<rparr> # D)"
    and "i < ai \<or> j < bj \<Longrightarrow>
         starts_changed (concat (map (segs a b) (gap_ops i j ai bj))
           @ \<lparr>type = Unchanged, content = c\<rparr> # D)"
  using assms
  by (auto simp: gap_ops_def segs_simps starts_changed_def no_interleave_Unchanged)

lemma opcodes_no_interleave:
  "blocks_sep st i j N \<Longrightarrow>
   no_interleave (concat (map (segs a b) (opcodes_loop i j (N @ [(la, lb, 0)]))))
   \<and> (st \<longrightarrow> starts_changed (concat (map (segs a b) (opcodes_loop i j (N @ [(la, lb, 0)])))))"
proof (induction N arbitrary: st i j)
  case Nil
  show ?case
    by (simp add: opcodes_loop_Cons equal_ops_def gap_no_interleave del: opcodes_loop.simps(2))
next
  case (Cons x N)
  obtain ai bj sz where x: "x = (ai, bj, sz)" by (cases x) auto
  from Cons.prems x have sz: "0 < sz" and st: "st \<longrightarrow> i < ai \<or> j < bj"
    and sep: "blocks_sep True (ai + sz) (bj + sz) N" by simp_all
  let ?D = "concat (map (segs a b) (opcodes_loop (ai + sz) (bj + sz) (N @ [(la, lb, 0)])))"
  from Cons.IH[OF sep] have D: "no_interleave ?D" "starts_changed ?D" by simp_all
  have eq: "concat (map (segs a b) (opcodes_loop i j ((x # N) @ [(la, lb, 0)])))
      = concat (map (segs a b) (gap_ops i j ai bj))
        @ \<lparr>type = Unchanged, content = join '' '' (slice a ai (ai + sz))\<rparr> # ?D"
    unfolding x using sz
    by (simp add: opcodes_loop_Cons equal_ops_def segs_simps del: opcodes_loop.simps(2))
  show ?case
    unfolding eq using block_no_interleave[OF D] st by blast
qed

lemma diff_no_interleave: "no_interleave (compute_diff original enhanced)"
  using opcodes_no_interleave[OF diff_blocks(2), where a = "split original"
      and b = "split enhanced" and la = "length (split original)" and lb = "length (split enhanced)"]
  by (simp add: compute_diff_opcodes del: matching_loop.simps)

subsection \<open>Splitting a joined word list\<close>

lemma isspace_space: "isspace CHR '' ''"
  by (simp add: isspace_def)

lemma split_scan_words:
  "\<forall>c\<in>set w. \<not> isspace c \<Longrightarrow>
   \<forall>v\<in>set (split_scan w cs). v \<noteq> [] \<and> (\<forall>c\<in>set v. \<not> isspace c)"
proof (induction cs arbitrary: w)
  case Nil
  then show ?case by simp
next
  case (Cons c cs)
  have e: "\<forall>v\<in>set (split_scan [] cs). v \<noteq> [] \<and> (\<forall>c\<in>set v. \<not> isspace c)"
    by (rule Cons.IH) simp
  show ?case
  proof (cases "isspace c")
    case True
    with e Cons.prems show ?thesis by auto
  next
    case False
    with Cons.prems have "\<forall>x\<in>set (w @ [c]). \<not> isspace x" by simp
    from Cons.IH[OF this] False show ?thesis by simp
  qed
qed

lemma split_words: "v \<in> set (split s) \<Longrightarrow> v \<noteq> [] \<and> (\<forall>c\<in>set v. \<not> isspace c)"
  using split_scan_words[of "[]" s] by (simp add: split_def)

lemma split_scan_word:
  "\<forall>c\<in>set v. \<not> isspace c \<Longrightarrow> split_scan w (v @ rest) = split_scan (w @ v) rest"
  by (induction v arbitrary: w) simp_all

lemma split_scan_join:
  "\<forall>v\<in>set ws. v \<noteq> [] \<and> (\<forall>c\<in>set v. \<not> isspace c) \<Longrightarrow> split_scan [] (join '' '' ws) = ws"
proof (induction ws rule: induct_list012)
  case 1
  show ?case by simp
next
  case (2 w)
  then show ?case using split_scan_word[of w "[]" "[]"] by simp
next
  case (3 w v ws)
  have w: "w \<noteq> []" "\<forall>c\<in>set w. \<not> isspace c" using 3(3) by simp_all
  have "split_scan [] (join '' '' (w # v # ws)) = split_scan w ('' '' @ join '' '' (v # ws))"
    using split_scan_word[OF w(2), of "[]"] by simp
  also have "\<dots> = w # split_scan [] (join '' '' (v # ws))"
    using w(1) by (simp add: isspace_space)
  also have "\<dots> = w # v # ws" using 3(2,3) by simp
  finally show ?case .
qed

lemma split_join:
  "\<forall>v\<in>set ws. v \<noteq> [] \<and> (\<forall>c\<in>set v. \<not> isspace c) \<Longrightarrow> split (join '' '' ws) = ws"
  by (simp add: split_def split_scan_join)

lemma split_join_chunks:
  assumes "concat cs = split s"
  shows "concat (map (\<lambda>c. split (join '' '' c)) cs) = split s"
proof -
  have "split (join '' '' c) = c" if "c \<in> set cs" for c
  proof (rule split_join, intro ballI)
    fix v assume "v \<in> set c"
    with that have "v \<in> set (concat cs)" by auto
    with assms show "v \<noteq> [] \<and> (\<forall>c\<in>set v. \<not> isspace c)" by (simp add: split_words)
  qed
  then have "map (\<lambda>c. split (join '' '' c)) cs = cs" by (simp add: map_idI)
  with assms show ?thesis by simp
qed

lemma diff_original_words:
  "concat (map (\<lambda>d. split (content d)) (filter (\<lambda>d. type d \<noteq> Added) (compute_diff original enhanced)))
     = split original"
proof -
  from diff_original_side[of original enhanced] obtain cs where
    cs: "original_side (compute_diff original enhanced) = map (join '' '') cs"
      "concat cs = split original" by blast
  have "map (\<lambda>d. split (content d)) (filter (\<lambda>d. type d \<noteq> Added) (compute_diff original enhanced))
      = map split (original_side (compute_diff original enhanced))"
    by (simp add: original_side_def comp_def)
  also have "\<dots> = map (\<lambda>c. split (join '' '' c)) cs" by (simp add: cs(1) comp_def)
  finally show ?thesis using split_join_chunks[OF cs(2)] by simp
qed

lemma diff_enhanced_words:
  "concat (map (\<lambda>d. split (content d)) (filter (\<lambda>d. type d \<noteq> Removed) (compute_diff original enhanced)))
     = split enhanced"
proof -
  from diff_enhanced_side[of original enhanced] obtain cs where
    cs: "enhanced_side (compute_diff original enhanced) = map (join '' '') cs"
      "concat cs = split enhanced" by blast
  have "map (\<lambda>d. split (content d)) (filter (\<lambda>d. type d \<noteq> Removed) (compute_diff original enhanced))
      = map split (enhanced_side (compute_diff original enhanced))"
    by (simp add: enhanced_side_def comp_def)
  also have "\<dots> = map (\<lambda>c. split (join '' '' c)) cs" by (simp add: cs(1) comp_def)
  finally show ?thesis using split_join_chunks[OF cs(2)] by simp
qed

lemma diff_original_join:
  "join '' '' (map content (filter (\<lambda>d. type d \<noteq> Added) (compute_diff original enhanced)))
     = join '' '' (split original)"
proof -
  from diff_original_side[of original enhanced] obtain cs where
    cs: "original_side (compute_diff original enhanced) = map (join '' '') cs"
      "\<forall>c\<in>set cs. c \<noteq> []" "concat cs = split original" by blast
  have "join '' '' (original_side (compute_diff original enhanced)) = join '' '' (concat cs)"
    unfolding cs(1) using cs(2) by (rule join_concat)
  then show ?thesis by (simp add: cs(3) original_side_def)
qed

lemma diff_enhanced_join:
  "join '' '' (map content (filter (\<lambda>d. type d \<noteq> Removed) (compute_diff original enhanced)))
     = join '' '' (split enhanced)"
proof -
  from diff_enhanced_side[of original enhanced] obtain cs where
    cs: "enhanced_side (compute_diff original enhanced) = map (join '' '') cs"
      "\<forall>c\<in>set cs. c \<noteq> []" "concat cs = split enhanced" by blast
  have "join '' '' (enhanced_side (compute_diff original enhanced)) = join '' '' (concat cs)"
    unfolding cs(1) using cs(2) by (rule join_concat)
  then show ?thesis by (simp add: cs(3) enhanced_side_def)
qed

subsection \<open>Identical word lists\<close>

text \<open>
  \<open>plen j2len j\<close> is the length the inner loop of \<open>find_longest_match\<close> stores at \<open>j\<close>:
  \<open>j2len.get(j-1, 0) + 1\<close>. When every \<open>j\<close> of the row lies in the window, the row stores
  that length at each of them, and the best size is at least each of them.
\<close>

definition plen :: "(nat \<rightharpoonup> nat) \<Rightarrow> nat \<Rightarrow> nat" where
  "plen j2len j = (case j of 0 \<Rightarrow> 0 | Suc j' \<Rightarrow> (case j2len j' of None \<Rightarrow> 0 | Some v \<Rightarrow> v)) + 1"

lemma flm_row_all:
  "\<forall>j\<in>set js. j < bhi \<Longrightarrow>
   (\<forall>j. fst (flm_row 0 bhi i j2len js (nm, best)) j
          = (if j \<in> set js then Some (plen j2len j) else nm j))
   \<and> snd (snd best) \<le> snd (snd (snd (flm_row 0 bhi i j2len js (nm, best))))
   \<and> (\<forall>j\<in>set js. plen j2len j \<le> snd (snd (snd (flm_row 0 bhi i j2len js (nm, best)))))"
proof (induction js arbitrary: nm best)
  case Nil
  show ?case by simp
next
  case (Cons j js)
  obtain bi bj bs where best: "best = (bi, bj, bs)" by (cases best) auto
  let ?k = "plen j2len j"
  let ?nm = "nm(j \<mapsto> ?k)"
  let ?best = "if ?k > bs then (Suc i - ?k, Suc j - ?k, ?k) else (bi, bj, bs)"
  let ?r = "flm_row 0 bhi i j2len js (?nm, ?best)"
  have step: "flm_row 0 bhi i j2len (j # js) (nm, best) = ?r"
    using Cons.prems best by (simp add: plen_def Let_def)
  have js: "\<forall>j\<in>set js. j < bhi" using Cons.prems by simp
  from Cons.IH[OF js, of ?nm ?best]
  have f: "\<forall>j'. fst ?r j' = (if j' \<in> set js then Some (plen j2len j') else ?nm j')"
    and s: "snd (snd ?best) \<le> snd (snd (snd ?r))"
    and a: "\<forall>j'\<in>set js. plen j2len j' \<le> snd (snd (snd ?r))"
    by blast+
  have s1: "bs \<le> snd (snd (snd ?r))" using s by (simp split: if_splits)
  have s2: "?k \<le> snd (snd (snd ?r))" using s by (simp split: if_splits)
  have "\<forall>j'. fst ?r j' = (if j' \<in> set (j # js) then Some (plen j2len j') else nm j')"
    using f by auto
  moreover have "snd (snd best) \<le> snd (snd (snd ?r))" using s1 best by simp
  moreover have "\<forall>j'\<in>set (j # js). plen j2len j' \<le> snd (snd (snd ?r))" using a s2 by simp
  ultimately show ?case unfolding step by blast
qed

text \<open>When \<open>b2j\<close> lists, for each \<open>a[i]\<close>, the index \<open>i\<close> itself, the diagonal grows by one
  with every row, and the best size reaches the number of rows.\<close>

lemma flm_rows_diag:
  assumes m: "\<forall>i<n. \<exists>js. m (a ! i) = Some js \<and> i \<in> set js \<and> (\<forall>j\<in>set js. j < n)"
  shows "i0 \<le> n \<Longrightarrow> (0 < i0 \<longrightarrow> j2len (i0 - 1) = Some i0) \<Longrightarrow> i0 \<le> snd (snd best) \<Longrightarrow>
     n \<le> snd (snd (flm_rows a m 0 n [i0..<n] j2len best))"
proof (induction "n - i0" arbitrary: i0 j2len best)
  case 0
  then show ?case by simp
next
  case (Suc d)
  then have lt: "i0 < n" by simp
  with m obtain js where js: "m (a ! i0) = Some js" "i0 \<in> set js" "\<forall>j\<in>set js. j < n"
    by blast
  let ?r = "flm_row 0 n i0 j2len js (Map.empty, best)"
  have p: "plen j2len i0 = Suc i0"
  proof (cases i0)
    case 0
    then show ?thesis by (simp add: plen_def)
  next
    case (Suc i')
    with Suc.prems(2) have "j2len i' = Some (Suc i')" by simp
    with Suc show ?thesis by (simp add: plen_def)
  qed
  from flm_row_all[OF js(3), of i0 j2len Map.empty best] js(2) p
  have f: "fst ?r i0 = Some (Suc i0)" and s: "Suc i0 \<le> snd (snd (snd ?r))"
    by auto
  have d: "d = n - Suc i0" using Suc.hyps(2) by simp
  have "n \<le> snd (snd (flm_rows a m 0 n [Suc i0..<n] (fst ?r) (snd ?r)))"
    using lt f s by (intro Suc.hyps(1)[OF d]) simp_all
  then show ?case
    using lt js(1) by (simp add: upt_conv_Cons case_prod_beta)
qed

lemma positions_complete: "i < length b \<Longrightarrow> k + i \<in> set (positions k (b ! i) b)"
proof (induction b arbitrary: i k)
  case Nil
  then show ?case by simp
next
  case (Cons y ys)
  show ?case
  proof (cases i)
    case 0
    then show ?thesis by simp
  next
    case (Suc i')
    with Cons.prems have "i' < length ys" by simp
    from Cons.IH[OF this, of "Suc k"] Suc show ?thesis by simp
  qed
qed

lemma b2j_same:
  "b2j (new_matcher None a b False) x = (if x \<in> set b then Some (positions 0 x b) else None)"
  by (simp add: new_matcher_def chain_b_def Let_def chain_b_loop_positions)

lemma find_longest_match_same:
  assumes ne: "a \<noteq> []"
  shows "find_longest_match (new_matcher None a a False) 0 (length a) 0 (length a)
           = (0, 0, length a)"
proof -
  let ?m = "new_matcher None a a False"
  let ?n = "length a"
  let ?best = "flm_rows a (b2j ?m) 0 ?n [0..<?n] Map.empty (0, 0, 0)"
  have m: "\<forall>i<?n. \<exists>js. b2j ?m (a ! i) = Some js \<and> i \<in> set js \<and> (\<forall>j\<in>set js. j < ?n)"
  proof (intro allI impI)
    fix i assume i: "i < ?n"
    have "b2j ?m (a ! i) = Some (positions 0 (a ! i) a)" using i by (simp add: b2j_same)
    moreover have "i \<in> set (positions 0 (a ! i) a)" using positions_complete[OF i, of 0] by simp
    moreover have "\<forall>j\<in>set (positions 0 (a ! i) a). j < ?n"
      using positions_sound[of _ 0 "a ! i" a] by auto
    ultimately show "\<exists>js. b2j ?m (a ! i) = Some js \<and> i \<in> set js \<and> (\<forall>j\<in>set js. j < ?n)"
      by blast
  qed
  have ge: "?n \<le> snd (snd ?best)"
    by (rule flm_rows_diag[OF m]) simp_all
  have "best_ok 0 ?n 0 ?n (0, 0, 0)" by (simp add: best_ok_def)
  then have ok: "best_ok 0 ?n 0 ?n ?best"
    by (rule flm_rows_bounds) simp_all
  obtain bi bj bs where b: "?best = (bi, bj, bs)" by (cases ?best) auto
  from ok ge b have "bi = 0 \<and> bj = 0 \<and> bs = ?n" by (auto simp: best_ok_def)
  with b have best: "?best = (0, 0, ?n)" by simp
  have l: "extend_left p a a 0 0 (0, 0, ?n) = (0, 0, ?n)" for p
    by (subst extend_left.simps) simp
  have r: "extend_right p a a ?n ?n (0, 0, ?n) = (0, 0, ?n)" for p
    by (subst extend_right.simps) simp
  show ?thesis
    unfolding find_longest_match_def Let_def matcher_fields best l r ..
qed

lemma find_longest_match_empty:
  "find_longest_match (new_matcher None [] [] False) 0 0 0 0 = (0, 0, 0)"
proof -
  have l: "extend_left p [] [] 0 0 (0, 0, 0) = (0, 0, 0)" for p :: "'a \<Rightarrow> bool"
    by (subst extend_left.simps) simp
  have r: "extend_right p [] [] 0 0 (0, 0, 0) = (0, 0, 0)" for p :: "'a \<Rightarrow> bool"
    by (subst extend_right.simps) simp
  show ?thesis
    unfolding find_longest_match_def Let_def matcher_fields by (simp add: l r)
qed

lemma get_opcodes_same:
  "get_opcodes (new_matcher None a a False)
     = (if a = [] then [] else [(Equal, 0, length a, 0, length a)])"
proof (cases "a = []")
  case True
  then show ?thesis
    by (simp add: get_opcodes_def get_matching_blocks_def matcher_fields find_longest_match_empty)
next
  case False
  then have n: "length a \<noteq> 0" by simp
  have "matching_loop (new_matcher None a a False) [(0, length a, 0, length a)] []
          = [(0, 0, length a)]"
    using n by (simp add: find_longest_match_same[OF False])
  then show ?thesis
    using False
    by (simp add: get_opcodes_def get_matching_blocks_def matcher_fields Let_def
        del: matching_loop.simps)
qed

lemma compute_diff_same:
  "compute_diff text_in text_in =
     (if split text_in = [] then []
      else [\<lparr>type = Unchanged, content = join '' '' (split text_in)\<rparr>])"
  by (simp add: compute_diff_def Let_def get_opcodes_same slice_all)

section \<open>The diff engine: round trip, replacement runs, identity\<close>

lemma scenario_words:
  "split ''The cat sat on the mat'' = [''The'', ''cat'', ''sat'', ''on'', ''the'', ''mat'']"
  "split ''The feline sat on the rug'' = [''The'', ''feline'', ''sat'', ''on'', ''the'', ''rug'']"
  by code_simp+

lemma scenario_diff:
  "compute_diff ''The cat sat on the mat'' ''The feline sat on the rug'' =
     [\<lparr>type = Unchanged, content = ''The''\<rparr>,
      \<lparr>type = Removed, content = ''cat''\<rparr>,
      \<lparr>type = Added, content = ''feline''\<rparr>,
      \<lparr>type = Unchanged, content = ''sat on the''\<rparr>,
      \<lparr>type = Removed, content = ''mat''\<rparr>,
      \<lparr>type = Added, content = ''rug''\<rparr>]"
  by code_simp

text \<open>
  Claim C5, as amended. For all texts, the contents of the segments of
  \<open>compute_diff original enhanced\<close> that are not \<open>added\<close>, joined by single spaces in
  order, are the words of \<open>original\<close> joined by single spaces, and the contents of the segments
  that are not \<open>removed\<close>, joined the same way, are the words of \<open>enhanced\<close> joined by single
  spaces. The texts themselves come back only when their words are separated by single spaces
  and no whitespace leads or trails them.
\<close>

theorem diff_round_trip:
  "join '' '' (map content (filter (\<lambda>d. type d \<noteq> Added) (compute_diff original enhanced)))
     = join '' '' (split original)
   \<and> join '' '' (map content (filter (\<lambda>d. type d \<noteq> Removed) (compute_diff original enhanced)))
     = join '' '' (split enhanced)"
  using diff_original_join[of original enhanced] diff_enhanced_join[of original enhanced]
  by (rule conjI)

theorem diff_round_trip_witness:
  "join '' '' (map content (filter (\<lambda>d. type d \<noteq> Added)
       (compute_diff ''The cat sat on the mat'' ''The feline sat on the rug'')))
     = ''The cat sat on the mat''
   \<and> join '' '' (map content (filter (\<lambda>d. type d \<noteq> Removed)
       (compute_diff ''The cat sat on the mat'' ''The feline sat on the rug'')))
     = ''The feline sat on the rug''"
proof -
  have a: "join '' '' (split ''The cat sat on the mat'') = ''The cat sat on the mat''"
    by (simp add: scenario_words)
  have b: "join '' '' (split ''The feline sat on the rug'') = ''The feline sat on the rug''"
    by (simp add: scenario_words)
  show ?thesis
    using diff_round_trip[of "''The cat sat on the mat''" "''The feline sat on the rug''"]
    unfolding a b .
qed

text \<open>
  The claim as the specification words it fails twice: concatenated without a separator, the
  segments of \<open>a b\<close> against \<open>a c\<close> give \<open>ab\<close>; joined by spaces, the segments of a text
  with two spaces between its words give the text with one space.
\<close>

theorem diff_round_trip_counterexample:
  "concat (map content (filter (\<lambda>d. type d \<noteq> Added) (compute_diff ''a b'' ''a c''))) \<noteq> ''a b''
   \<and> join '' '' (map content (filter (\<lambda>d. type d \<noteq> Added) (compute_diff ''a  b'' ''a  c'')))
       \<noteq> ''a  b''"
  by code_simp

text \<open>
  Claim C6. Wherever the opcode list holds a \<open>replace\<close> opcode, the loop of \<open>compute_diff\<close>
  puts out exactly two segments for it, the \<open>removed\<close> one with the words of the original side
  and then the \<open>added\<close> one with the words of the enhanced side, between the segments of the
  opcodes before it and those of the opcodes after it. For every pair of texts the segment
  list of \<open>compute_diff\<close> never has \<open>removed\<close> and \<open>added\<close> segments alternating: after an
  \<open>added\<close> segment comes an \<open>unchanged\<close> one, and two neighbours never have the same type.
  The words of the segments that are not \<open>added\<close> are, in order, the words of \<open>original\<close>,
  and the words of the segments that are not \<open>removed\<close> are, in order, the words of
  \<open>enhanced\<close>. On the two sentences of the scenario the segments are the six listed ones.
\<close>

theorem replacement_run_segments:
  "diff_loop ow ew (ops1 @ (Replace, i1, i2, j1, j2) # ops2) [] =
       diff_loop ow ew ops1 []
       @ [\<lparr>type = Removed, content = join '' '' (slice ow i1 i2)\<rparr>,
          \<lparr>type = Added, content = join '' '' (slice ew j1 j2)\<rparr>]
       @ diff_loop ow ew ops2 []
   \<and> no_interleave (compute_diff original enhanced)
   \<and> concat (map (\<lambda>d. split (content d))
        (filter (\<lambda>d. type d \<noteq> Added) (compute_diff original enhanced))) = split original
   \<and> concat (map (\<lambda>d. split (content d))
        (filter (\<lambda>d. type d \<noteq> Removed) (compute_diff original enhanced))) = split enhanced
   \<and> compute_diff ''The cat sat on the mat'' ''The feline sat on the rug'' =
       [\<lparr>type = Unchanged, content = ''The''\<rparr>,
        \<lparr>type = Removed, content = ''cat''\<rparr>,
        \<lparr>type = Added, content = ''feline''\<rparr>,
        \<lparr>type = Unchanged, content = ''sat on the''\<rparr>,
        \<lparr>type = Removed, content = ''mat''\<rparr>,
        \<lparr>type = Added, content = ''rug''\<rparr>]"
proof (intro conjI)
  show "diff_loop ow ew (ops1 @ (Replace, i1, i2, j1, j2) # ops2) [] =
       diff_loop ow ew ops1 []
       @ [\<lparr>type = Removed, content = join '' '' (slice ow i1 i2)\<rparr>,
          \<lparr>type = Added, content = join '' '' (slice ew j1 j2)\<rparr>]
       @ diff_loop ow ew ops2 []"
    by (simp add: diff_loop_segs[of ow ew _ "[]"] segs_simps)
qed (rule diff_no_interleave diff_original_words diff_enhanced_words scenario_diff)+

theorem replacement_run_segments_witness:
  "no_interleave (compute_diff ''The cat sat on the mat'' ''The feline sat on the rug'')
   \<and> concat (map (\<lambda>d. split (content d))
        (filter (\<lambda>d. type d \<noteq> Added)
           (compute_diff ''The cat sat on the mat'' ''The feline sat on the rug'')))
       = [''The'', ''cat'', ''sat'', ''on'', ''the'', ''mat'']"
proof -
  have "no_interleave (compute_diff ''The cat sat on the mat'' ''The feline sat on the rug'')
   \<and> concat (map (\<lambda>d. split (content d))
        (filter (\<lambda>d. type d \<noteq> Added)
           (compute_diff ''The cat sat on the mat'' ''The feline sat on the rug'')))
       = split ''The cat sat on the mat''"
    using replacement_run_segments[where original = "''The cat sat on the mat''"
      and enhanced = "''The feline sat on the rug''" and ow = "[]" and ew = "[]"
      and ?ops1.0 = "[]" and ?ops2.0 = "[]" and ?i1.0 = 0 and ?i2.0 = 0 and ?j1.0 = 0 and ?j2.0 = 0]
    by blast
  then show ?thesis by (simp only: scenario_words)
qed

text \<open>
  Claim C7, as amended. For every text with at least one word, \<open>compute_diff\<close> of the text
  against itself is exactly one \<open>unchanged\<close> segment, whose content is the words of the text
  joined by single spaces; for a text without words (empty, or whitespace only) it is the
  empty list, and so it is for two empty texts.
\<close>

theorem diff_identity:
  "compute_diff original original =
     (if split original = [] then []
      else [\<lparr>type = Unchanged, content = join '' '' (split original)\<rparr>])
   \<and> compute_diff [] [] = []"
  using compute_diff_same[of original] compute_diff_same[of "[]"]
  by (simp add: split_def)

theorem diff_identity_witness:
  "compute_diff ''The cat sat on the mat'' ''The cat sat on the mat'' =
     [\<lparr>type = Unchanged, content = ''The cat sat on the mat''\<rparr>]"
  using diff_identity[of "''The cat sat on the mat''"]
  by (simp add: scenario_words)

text \<open>
  The claim as the specification words it fails on a text that is not empty and has no word,
  which gives no segment, and on a text with two spaces between two words, whose one
  segment holds the text with one space.
\<close>

theorem diff_identity_counterexample:
  "compute_diff '' '' '' '' = []
   \<and> compute_diff ''a  b'' ''a  b'' = [\<lparr>type = Unchanged, content = ''a b''\<rparr>]"
  by code_simp

end
